theory Spec2Isabelle
  imports Main "HOL-Library.Word" "HOL-Library.Multiset" "HOL-Library.Signed_Division"
begin

unbundle bit_operations_syntax

section \<open>Characters and squares (move.cpp, position.cpp)\<close>

text \<open>
  The program's \<^verbatim>\<open>int\<close> values (squares, depths, scores) are modelled as \<^typ>\<open>int\<close>:
  every value the engine computes stays far inside the 32-bit range (scores are bounded by
  \<open>MATE = 1000000\<close>, squares by 64).  C's \<^verbatim>\<open>/\<close> and \<^verbatim>\<open>%\<close> truncate towards zero; they
  are \<open>sdiv\<close> and \<open>smod\<close>.  The C library's \<^verbatim>\<open>isupper\<close>, \<^verbatim>\<open>tolower\<close> and
  \<^verbatim>\<open>toupper\<close> are taken in the "C" locale.
\<close>

definition is_upper :: "char \<Rightarrow> bool" where
  "is_upper c \<longleftrightarrow> (65::int) \<le> of_char c \<and> of_char c \<le> (90::int)"

definition is_lower :: "char \<Rightarrow> bool" where
  "is_lower c \<longleftrightarrow> (97::int) \<le> of_char c \<and> of_char c \<le> (122::int)"

definition to_lower :: "char \<Rightarrow> char" where
  "to_lower c = (if is_upper c then char_of (of_char c + (32::int)) else c)"

definition to_upper :: "char \<Rightarrow> char" where
  "to_upper c = (if is_lower c then char_of (of_char c - (32::int)) else c)"

text \<open>\<^verbatim>\<open>square_string\<close>: the column letter and the row digit of a square index.\<close>

definition square_string :: "int \<Rightarrow> string" where
  "square_string square =
     [char_of (square smod 8 + 97), char_of (8 - square sdiv 8 + 48)]"

section \<open>Moves (move.h, move.cpp)\<close>

record move =
  m_from :: int
  m_to :: int
  m_piece :: char
  m_captured :: char
  m_special :: char
  m_last_enpassant :: int

definition Move :: "int \<Rightarrow> int \<Rightarrow> char \<Rightarrow> char \<Rightarrow> char \<Rightarrow> int \<Rightarrow> move" where
  "Move from' to' piece captured special last_enpassant =
     \<lparr>m_from = from', m_to = to', m_piece = piece, m_captured = captured,
      m_special = special, m_last_enpassant = last_enpassant\<rparr>"

definition no_special :: char where
  "no_special = CHR 0x00"

text \<open>\<^verbatim>\<open>Move::to_string\<close>, the short notation.\<close>

definition to_string :: "move \<Rightarrow> string" where
  "to_string m =
     (if to_lower (m_piece m) = CHR ''p'' then
        (if m_captured m \<noteq> CHR ''.'' \<or> to_lower (m_special m) = CHR ''e''
         then [hd (square_string (m_from m)), CHR ''x''] else [])
        @ square_string (m_to m)
        @ (if m_special m \<noteq> no_special \<and> to_lower (m_special m) \<noteq> CHR ''e''
           then [CHR ''='', m_special m] else [])
      else if m_captured m \<noteq> CHR ''.'' then
        [to_upper (m_piece m), CHR ''x''] @ square_string (m_to m)
      else
        [to_upper (m_piece m)] @ square_string (m_to m))"

text \<open>\<^verbatim>\<open>Move::to_full_string\<close>, the long notation matched against the user's input.\<close>

definition to_full_string :: "move \<Rightarrow> string" where
  "to_full_string m =
     (if to_lower (m_piece m) = CHR ''p'' then
        square_string (m_from m)
        @ (if m_captured m \<noteq> CHR ''.'' then ''x'' else ''-'')
        @ square_string (m_to m)
        @ (if m_special m \<noteq> no_special \<and> to_lower (m_special m) \<noteq> CHR ''e''
           then [CHR ''='', m_special m] else [])
      else if m_captured m \<noteq> CHR ''.'' then
        [to_upper (m_piece m)] @ square_string (m_from m) @ ''x'' @ square_string (m_to m)
      else
        [to_upper (m_piece m)] @ square_string (m_from m) @ ''-'' @ square_string (m_to m))"

section \<open>Errors\<close>

text \<open>
  Every \<^verbatim>\<open>throw\<close> of the source is a value of \<open>error\<close>; a function that can throw
  returns \<open>error + result\<close>.  \<open>Undefined_behaviour\<close> stands for the places where the C++
  has no defined result: an access to \<^verbatim>\<open>m_board\<close> outside the 64 squares, \<^verbatim>\<open>back()\<close> of an
  empty vector, dereferencing an \<^verbatim>\<open>end()\<close> or erased iterator.
\<close>

datatype error =
    Invalid_square_coordinates
  | Moving_piece_not_found
  | Taken_piece_not_found
  | Invalid_special_side
  | En_passant_target_not_found
  | Internal_logic_error
  | Undefined_behaviour

section \<open>Positions (position.h, position.cpp)\<close>

text \<open>
  \<^verbatim>\<open>m_board\<close> is the list of the 64 squares (the terminating null character of the C array
  is left out).  \<^verbatim>\<open>m_pieces\<close>, an \<^verbatim>\<open>unordered_multimap<char, int>\<close>, is the list of its
  (piece, square) entries in iteration order: \<^verbatim>\<open>insert\<close> appends an entry, \<^verbatim>\<open>erase\<close> removes
  one, and an assignment through an iterator replaces an entry in place.  The standard leaves
  the iteration order open, so results about \<^verbatim>\<open>m_pieces\<close> are stated for its multiset of
  entries.  \<^verbatim>\<open>m_prev_moves\<close> is the list of moves, the last played move last.
\<close>

record position =
  m_board :: "char list"
  m_to_move :: char
  m_en_passant :: int
  m_pieces :: "(char \<times> int) list"
  m_prev_moves :: "move list"

definition are_valid_coords :: "int \<Rightarrow> int \<Rightarrow> bool" where
  "are_valid_coords col row \<longleftrightarrow> col \<ge> 0 \<and> col < 8 \<and> row \<ge> 0 \<and> row < 8"

definition get_square :: "int \<Rightarrow> int \<Rightarrow> error + int" where
  "get_square col row =
     (if \<not> are_valid_coords col row then Inl Invalid_square_coordinates
      else Inr (col + 8 * row))"

text \<open>\<^verbatim>\<open>get_square(std::string)\<close>, on the two characters of a square name.\<close>

definition get_square_str :: "char \<Rightarrow> char \<Rightarrow> error + int" where
  "get_square_str c0 c1 =
     get_square (of_char (to_lower c0) - 97) (8 - (of_char (to_lower c1) - 48))"

text \<open>The entry of \<^verbatim>\<open>m_board\<close> at a square that the caller has already validated.\<close>

definition board_at :: "position \<Rightarrow> int \<Rightarrow> char" where
  "board_at pos sq = m_board pos ! nat sq"

definition board_set :: "char list \<Rightarrow> int \<Rightarrow> char \<Rightarrow> error + char list" where
  "board_set b sq c =
     (if 0 \<le> sq \<and> sq < 64 then Inr (b[nat sq := c]) else Inl Undefined_behaviour)"

subsection \<open>Attack detection\<close>

definition knight_dirs :: "(int \<times> int) list" where
  "knight_dirs = [(1,2),(2,1),(-1,2),(-2,1),(-1,-2),(-2,-1),(1,-2),(2,-1)]"

definition king_dirs :: "(int \<times> int) list" where
  "king_dirs = [(1,-1),(-1,1),(1,1),(-1,-1),(1,0),(-1,0),(0,1),(0,-1)]"

definition rook_dirs :: "(int \<times> int) list" where
  "rook_dirs = [(1,0),(-1,0),(0,1),(0,-1)]"

definition bishop_dirs :: "(int \<times> int) list" where
  "bishop_dirs = [(1,-1),(-1,1),(1,1),(-1,-1)]"

definition bishop_hit_dirs :: "(int \<times> int) list" where
  "bishop_hit_dirs = [(1,1),(-1,1),(1,-1),(-1,-1)]"

definition pawn_hit_dirs :: "bool \<Rightarrow> (int \<times> int) list" where
  "pawn_hit_dirs by_white = (if by_white then [(1,1),(-1,1)] else [(1,-1),(-1,-1)])"

text \<open>One iteration of the knight, pawn and king loops of \<^verbatim>\<open>square_hit\<close>.\<close>

definition step_hit :: "position \<Rightarrow> int \<Rightarrow> int \<Rightarrow> bool \<Rightarrow> char \<Rightarrow> int \<times> int \<Rightarrow> bool" where
  "step_hit pos col row by_white kind cds =
     (are_valid_coords (col + fst cds) (row + snd cds) \<and>
      (let sq = col + fst cds + 8 * (row + snd cds)
       in to_lower (board_at pos sq) = kind \<and> by_white = is_upper (board_at pos sq)))"

text \<open>
  The \<^verbatim>\<open>while\<close> loop along one ray.  The direction tables hold no zero direction; the
  test \<open>cds \<noteq> (0, 0)\<close> only makes that visible to the termination proof.
\<close>

function ray_hit :: "position \<Rightarrow> bool \<Rightarrow> char \<Rightarrow> int \<times> int \<Rightarrow> int \<times> int \<Rightarrow> bool" where
  "ray_hit pos by_white kind cds cur =
     (if are_valid_coords (fst cur) (snd cur) \<and> cds \<noteq> (0, 0) then
        (let sq = fst cur + 8 * snd cur in
         if board_at pos sq \<noteq> CHR ''.'' then
           by_white = is_upper (board_at pos sq) \<and>
           (to_lower (board_at pos sq) = kind \<or> to_lower (board_at pos sq) = CHR ''q'')
         else ray_hit pos by_white kind cds (fst cur + fst cds, snd cur + snd cds))
      else False)"
  by pat_completeness auto
termination
  by (relation "measure (\<lambda>(pos, by_white, kind, cds, cur).
        nat (if fst cds > 0 then 8 - fst cur else if fst cds < 0 then fst cur + 1
             else if snd cds > 0 then 8 - snd cur else snd cur + 1))")
     (auto simp add: are_valid_coords_def)

declare ray_hit.simps [simp del]

definition square_hit :: "position \<Rightarrow> int \<Rightarrow> bool \<Rightarrow> bool" where
  "square_hit pos square by_white =
     (let col = square smod 8; row = square sdiv 8 in
      list_ex (step_hit pos col row by_white (CHR ''n'')) knight_dirs
      \<or> list_ex (step_hit pos col row by_white (CHR ''p'')) (pawn_hit_dirs by_white)
      \<or> list_ex (step_hit pos col row by_white (CHR ''k'')) king_dirs
      \<or> list_ex (\<lambda>cds. ray_hit pos by_white (CHR ''r'') cds (col + fst cds, row + snd cds))
           rook_dirs
      \<or> list_ex (\<lambda>cds. ray_hit pos by_white (CHR ''b'') cds (col + fst cds, row + snd cds))
           bishop_hit_dirs)"

subsection \<open>Pseudo-legal moves\<close>

text \<open>
  The promotion fan-out that follows a pawn capture and a single push: four moves on
  row 0 or row 7, one ordinary move otherwise.
\<close>

definition pawn_arrivals :: "position \<Rightarrow> int \<Rightarrow> int \<Rightarrow> char \<Rightarrow> char \<Rightarrow> int \<Rightarrow> move list" where
  "pawn_arrivals pos square sq piece captured r =
     (if r = 0 then
        map (\<lambda>p. Move square sq piece captured p (m_en_passant pos))
          [CHR ''Q'', CHR ''R'', CHR ''N'', CHR ''B'']
      else if r = 7 then
        map (\<lambda>p. Move square sq piece captured p (m_en_passant pos))
          [CHR ''q'', CHR ''r'', CHR ''n'', CHR ''b'']
      else [Move square sq piece captured no_special (m_en_passant pos)])"

definition pawn_diagonal :: "position \<Rightarrow> char \<Rightarrow> int \<Rightarrow> int \<Rightarrow> int \<Rightarrow> move list" where
  "pawn_diagonal pos piece square dir c_dir =
     (let col = square smod 8; row = square sdiv 8 in
      if \<not> are_valid_coords (col + c_dir) (row + dir) then []
      else
        (let sq = col + c_dir + 8 * (row + dir) in
         if board_at pos sq \<noteq> CHR ''.'' \<and> is_upper (board_at pos sq) \<noteq> is_upper piece then
           pawn_arrivals pos square sq piece (board_at pos sq) (row + dir)
         else if sq = m_en_passant pos then
           [Move square sq piece (board_at pos sq)
              (if is_upper piece then CHR ''E'' else CHR ''e'') (m_en_passant pos)]
         else []))"

definition pawn_moves :: "position \<Rightarrow> char \<Rightarrow> int \<Rightarrow> error + move list" where
  "pawn_moves pos piece square =
     (let col = square smod 8; row = square sdiv 8;
          dir = (if is_upper piece then - 1 else 1);
          diagonal = pawn_diagonal pos piece square dir 1 @ pawn_diagonal pos piece square dir (- 1)
      in case get_square col (row + dir) of
           Inl e \<Rightarrow> Inl e
         | Inr sq \<Rightarrow>
             Inr (diagonal
               @ (if board_at pos sq = CHR ''.''
                  then pawn_arrivals pos square sq piece (CHR ''.'') (row + dir) else [])
               @ (if ((is_upper piece \<and> row = 6) \<or> (\<not> is_upper piece \<and> row = 1))
                     \<and> board_at pos sq = CHR ''.''
                     \<and> board_at pos (col + 8 * (row + 2 * dir)) = CHR ''.''
                  then [Move square (col + 8 * (row + 2 * dir)) piece (CHR ''.'') no_special
                          (m_en_passant pos)]
                  else [])))"

text \<open>One iteration of the knight and king loops.\<close>

definition step_move :: "position \<Rightarrow> char \<Rightarrow> int \<Rightarrow> int \<times> int \<Rightarrow> move list" where
  "step_move pos piece square cds =
     (let col = square smod 8; row = square sdiv 8 in
      if \<not> are_valid_coords (col + fst cds) (row + snd cds) then []
      else
        (let sq = col + fst cds + 8 * (row + snd cds) in
         if board_at pos sq = CHR ''.'' \<or> is_upper piece \<noteq> is_upper (board_at pos sq)
         then [Move square sq piece (board_at pos sq) no_special (m_en_passant pos)]
         else []))"

text \<open>The \<^verbatim>\<open>while\<close> loop of a sliding piece along one ray.\<close>

function ray_moves :: "position \<Rightarrow> char \<Rightarrow> int \<Rightarrow> int \<times> int \<Rightarrow> int \<times> int \<Rightarrow> move list" where
  "ray_moves pos piece square cds cur =
     (if are_valid_coords (fst cur) (snd cur) \<and> cds \<noteq> (0, 0) then
        (let sq = fst cur + 8 * snd cur in
         if board_at pos sq \<noteq> CHR ''.'' \<and> is_upper piece = is_upper (board_at pos sq) then []
         else
           Move square sq piece (board_at pos sq) no_special (m_en_passant pos)
           # (if board_at pos sq \<noteq> CHR ''.'' then []
              else ray_moves pos piece square cds (fst cur + fst cds, snd cur + snd cds)))
      else [])"
  by pat_completeness auto
termination
  by (relation "measure (\<lambda>(pos, piece, square, cds, cur).
        nat (if fst cds > 0 then 8 - fst cur else if fst cds < 0 then fst cur + 1
             else if snd cds > 0 then 8 - snd cur else snd cur + 1))")
     (auto simp add: are_valid_coords_def)

declare ray_moves.simps [simp del]

definition slide_moves :: "position \<Rightarrow> char \<Rightarrow> int \<Rightarrow> (int \<times> int) list \<Rightarrow> move list" where
  "slide_moves pos piece square dirs =
     concat (map (\<lambda>cds. ray_moves pos piece square cds
                          (square smod 8 + fst cds, square sdiv 8 + snd cds)) dirs)"

definition find_pseudo_legal_moves :: "position \<Rightarrow> char \<Rightarrow> int \<Rightarrow> error + move list" where
  "find_pseudo_legal_moves pos piece square =
     (if to_lower piece = CHR ''p'' then pawn_moves pos piece square
      else if to_lower piece = CHR ''n'' then
        Inr (concat (map (step_move pos piece square) knight_dirs))
      else if to_lower piece = CHR ''k'' then
        Inr (concat (map (step_move pos piece square) king_dirs))
      else if to_lower piece = CHR ''q'' then Inr (slide_moves pos piece square king_dirs)
      else if to_lower piece = CHR ''b'' then Inr (slide_moves pos piece square bishop_dirs)
      else if to_lower piece = CHR ''r'' then Inr (slide_moves pos piece square rook_dirs)
      else Inr [])"

subsection \<open>Making and undoing a move\<close>

text \<open>
  \<^verbatim>\<open>get_piece(piece, square) != m_pieces.end()\<close>, and the three things the source does
  through the iterator it returns: assign the square, erase the entry, and (for
  \<^verbatim>\<open>insert\<close>) add an entry.
\<close>

definition has_entry :: "(char \<times> int) list \<Rightarrow> char \<Rightarrow> int \<Rightarrow> bool" where
  "has_entry pcs piece square \<longleftrightarrow> (piece, square) \<in> set pcs"

fun set_square :: "(char \<times> int) list \<Rightarrow> char \<times> int \<Rightarrow> int \<Rightarrow> (char \<times> int) list" where
  "set_square [] e t = []"
| "set_square (x # xs) e t = (if x = e then (fst e, t) # xs else x # set_square xs e t)"

definition erase_entry :: "(char \<times> int) list \<Rightarrow> char \<times> int \<Rightarrow> (char \<times> int) list" where
  "erase_entry pcs e = remove1 e pcs"

definition insert_entry :: "(char \<times> int) list \<Rightarrow> char \<times> int \<Rightarrow> (char \<times> int) list" where
  "insert_entry pcs e = pcs @ [e]"

definition swap_to_move :: "char \<Rightarrow> char" where
  "swap_to_move c = (if c = CHR ''w'' then CHR ''b'' else CHR ''w'')"

text \<open>The \<^verbatim>\<open>if(move.m_special)\<close> block of \<^verbatim>\<open>perform_move\<close>.\<close>

definition perform_special ::
  "(char \<times> int) list \<Rightarrow> char list \<Rightarrow> move \<Rightarrow> error + ((char \<times> int) list \<times> char list)" where
  "perform_special pcs b move =
     (if m_special move = no_special then Inr (pcs, b)
      else if is_upper (m_piece move) \<noteq> is_upper (m_special move) then Inl Invalid_special_side
      else if m_special move = CHR ''e'' then
        (if \<not> has_entry pcs (CHR ''P'') (m_to move - 8) then Inl En_passant_target_not_found
         else case board_set b (m_to move - 8) (CHR ''.'') of
                Inl e \<Rightarrow> Inl e
              | Inr b' \<Rightarrow> Inr (erase_entry pcs (CHR ''P'', m_to move - 8), b'))
      else if m_special move = CHR ''E'' then
        (if \<not> has_entry pcs (CHR ''p'') (m_to move + 8) then Inl En_passant_target_not_found
         else case board_set b (m_to move + 8) (CHR ''.'') of
                Inl e \<Rightarrow> Inl e
              | Inr b' \<Rightarrow> Inr (erase_entry pcs (CHR ''p'', m_to move + 8), b'))
      else
        (case board_set b (m_to move) (m_special move) of
           Inl e \<Rightarrow> Inl e
         | Inr b' \<Rightarrow>
             Inr (insert_entry (erase_entry pcs (m_piece move, m_to move))
                    (m_special move, m_to move), b')))"

text \<open>
  \<^verbatim>\<open>Position::perform_move\<close>.  When the captured entry is the moving entry itself the source
  erases it and then writes through the dangling iterator.
\<close>

definition perform_move :: "position \<Rightarrow> move \<Rightarrow> error + position" where
  "perform_move pos move =
     (if \<not> has_entry (m_pieces pos) (m_piece move) (m_from move) then Inl Moving_piece_not_found
      else if m_captured move \<noteq> CHR ''.''
              \<and> \<not> has_entry (m_pieces pos) (m_captured move) (m_to move)
      then Inl Taken_piece_not_found
      else if m_captured move \<noteq> CHR ''.''
              \<and> (m_captured move, m_to move) = (m_piece move, m_from move)
      then Inl Undefined_behaviour
      else
        (let pcs1 = (if m_captured move \<noteq> CHR ''.''
                     then erase_entry (m_pieces pos) (m_captured move, m_to move)
                     else m_pieces pos);
             pcs2 = set_square pcs1 (m_piece move, m_from move) (m_to move)
         in case board_set (m_board pos) (m_from move) (CHR ''.'') of
              Inl e \<Rightarrow> Inl e
            | Inr b1 \<Rightarrow>
           (case board_set b1 (m_to move) (m_piece move) of
              Inl e \<Rightarrow> Inl e
            | Inr b2 \<Rightarrow>
           (case perform_special pcs2 b2 move of
              Inl e \<Rightarrow> Inl e
            | Inr (pcs3, b3) \<Rightarrow>
                Inr \<lparr>m_board = b3,
                     m_to_move = swap_to_move (m_to_move pos),
                     m_en_passant =
                       (if to_lower (m_piece move) = CHR ''p'' \<and> \<bar>m_from move - m_to move\<bar> = 16
                        then (m_to move + m_from move) sdiv 2 else - 1),
                     m_pieces = pcs3,
                     m_prev_moves = m_prev_moves pos @ [move]\<rparr>))))"

text \<open>
  The \<^verbatim>\<open>if(move.m_special)\<close> block of \<^verbatim>\<open>undo_move\<close>; \<open>arrived\<close> is the letter that was on
  \<^verbatim>\<open>m_to\<close>, so that (\<open>arrived\<close>, \<^verbatim>\<open>m_from\<close>) is the entry \<^verbatim>\<open>moved_piece\<close> points to.
\<close>

definition undo_special ::
  "(char \<times> int) list \<Rightarrow> char list \<Rightarrow> move \<Rightarrow> char \<Rightarrow> error + ((char \<times> int) list \<times> char list)" where
  "undo_special pcs b move arrived =
     (if m_special move = no_special then Inr (pcs, b)
      else if is_upper (m_piece move) \<noteq> is_upper (m_special move) then Inl Invalid_special_side
      else if m_special move = CHR ''e'' then
        (case board_set b (m_to move - 8) (CHR ''P'') of
           Inl e \<Rightarrow> Inl e
         | Inr b' \<Rightarrow> Inr (insert_entry pcs (CHR ''P'', m_to move - 8), b'))
      else if m_special move = CHR ''E'' then
        (case board_set b (m_to move + 8) (CHR ''p'') of
           Inl e \<Rightarrow> Inl e
         | Inr b' \<Rightarrow> Inr (insert_entry pcs (CHR ''p'', m_to move + 8), b'))
      else
        (case board_set b (m_from move) (m_piece move) of
           Inl e \<Rightarrow> Inl e
         | Inr b' \<Rightarrow>
             Inr (insert_entry (erase_entry pcs (arrived, m_from move))
                    (m_piece move, m_from move), b')))"

text \<open>\<^verbatim>\<open>Position::undo_move\<close>.\<close>

definition undo_move :: "position \<Rightarrow> error + position" where
  "undo_move pos =
     (if m_prev_moves pos = [] then Inl Undefined_behaviour
      else
        (let move = last (m_prev_moves pos) in
         if \<not> (0 \<le> m_to move \<and> m_to move < 64) then Inl Undefined_behaviour
         else
           (let arrived = board_at pos (m_to move) in
            if \<not> has_entry (m_pieces pos) arrived (m_to move) then Inl Moving_piece_not_found
            else
              (let pcs1 = (if m_captured move \<noteq> CHR ''.''
                           then insert_entry (m_pieces pos) (m_captured move, m_to move)
                           else m_pieces pos);
                   pcs2 = set_square pcs1 (arrived, m_to move) (m_from move)
               in case board_set (m_board pos) (m_from move) (m_piece move) of
                    Inl e \<Rightarrow> Inl e
                  | Inr b1 \<Rightarrow>
                 (case board_set b1 (m_to move) (m_captured move) of
                    Inl e \<Rightarrow> Inl e
                  | Inr b2 \<Rightarrow>
                 (case undo_special pcs2 b2 move arrived of
                    Inl e \<Rightarrow> Inl e
                  | Inr (pcs3, b3) \<Rightarrow>
                      Inr \<lparr>m_board = b3,
                           m_to_move = swap_to_move (m_to_move pos),
                           m_en_passant = m_last_enpassant move,
                           m_pieces = pcs3,
                           m_prev_moves = butlast (m_prev_moves pos)\<rparr>))))))"

subsection \<open>Legal moves\<close>

text \<open>The first loop of \<^verbatim>\<open>get_possible_moves\<close>, over the entries of \<^verbatim>\<open>m_pieces\<close>.\<close>

fun collect_pseudo_legal :: "position \<Rightarrow> (char \<times> int) list \<Rightarrow> error + move list" where
  "collect_pseudo_legal pos [] = Inr []"
| "collect_pseudo_legal pos (p # rest) =
     (if is_upper (fst p) \<noteq> (m_to_move pos = CHR ''w'') then collect_pseudo_legal pos rest
      else case find_pseudo_legal_moves pos (fst p) (snd p) of
             Inl e \<Rightarrow> Inl e
           | Inr ms \<Rightarrow>
               (case collect_pseudo_legal pos rest of
                  Inl e \<Rightarrow> Inl e
                | Inr ms' \<Rightarrow> Inr (ms @ ms')))"

text \<open>
  \<^verbatim>\<open>m_pieces.find(letter)\<close>: an entry with that letter, if there is one.  The source keeps the
  iterator to the mover's king across \<^verbatim>\<open>perform_move\<close>, which moves the king by assigning
  through its own iterator; with one king of that colour in \<^verbatim>\<open>m_pieces\<close>, the entry behind
  the kept iterator is the entry this lookup finds after the move.
\<close>

definition find_entry :: "(char \<times> int) list \<Rightarrow> char \<Rightarrow> (char \<times> int) option" where
  "find_entry pcs letter = find (\<lambda>p. fst p = letter) pcs"

definition king_letter :: "position \<Rightarrow> char" where
  "king_letter pos = (if m_to_move pos = CHR ''w'' then CHR ''K'' else CHR ''k'')"

text \<open>
  The second loop: make each pseudo-legal move, keep it when the mover's king is not hit,
  undo it.  The position is threaded through and returned.
\<close>

fun filter_legal :: "position \<Rightarrow> char \<Rightarrow> move list \<Rightarrow> error + (move list \<times> position)" where
  "filter_legal pos king [] = Inr ([], pos)"
| "filter_legal pos king (m # ms) =
     (case perform_move pos m of
        Inl e \<Rightarrow> Inl e
      | Inr pos1 \<Rightarrow>
     (case find_entry (m_pieces pos1) king of
        None \<Rightarrow> Inl Undefined_behaviour
      | Some k \<Rightarrow>
     (case undo_move pos1 of
        Inl e \<Rightarrow> Inl e
      | Inr pos2 \<Rightarrow>
     (case filter_legal pos2 king ms of
        Inl e \<Rightarrow> Inl e
      | Inr (legal, pos3) \<Rightarrow>
          Inr (if \<not> square_hit pos1 (snd k) (\<not> is_upper (fst k)) then m # legal else legal,
               pos3)))))"

definition pseudo_legal_moves :: "position \<Rightarrow> error + move list" where
  "pseudo_legal_moves pos = collect_pseudo_legal pos (m_pieces pos)"

definition get_possible_moves :: "position \<Rightarrow> error + (move list \<times> position)" where
  "get_possible_moves pos =
     (case pseudo_legal_moves pos of
        Inl e \<Rightarrow> Inl e
      | Inr pseudo_legal \<Rightarrow> filter_legal pos (king_letter pos) pseudo_legal)"

section \<open>Engine constants and the mate-distance function (engine.h, engine.cpp)\<close>

definition MATE :: int where
  "MATE = 1000000"

definition MATE_THRESHOLD :: int where
  "MATE_THRESHOLD = 2000"

definition INT_MAX :: int where
  "INT_MAX = 2147483647"

definition INT_MIN :: int where
  "INT_MIN = - 2147483648"

text \<open>
  \<^verbatim>\<open>abs\<close> of a 32-bit \<^verbatim>\<open>int\<close>.  The absolute value of \<open>INT_MIN\<close> is no \<^verbatim>\<open>int\<close>: the
  two's-complement negation that computes it gives \<open>INT_MIN\<close> again.  \<^verbatim>\<open>process_eval\<close> takes
  its argument from the caller, so it is modelled on every \<^verbatim>\<open>int\<close>; the scores that
  \<^verbatim>\<open>evaluate\<close> itself passes to \<^verbatim>\<open>abs\<close> lie between \<open>- MATE\<close> and \<open>MATE\<close>.
\<close>

definition c_abs :: "int \<Rightarrow> int" where
  "c_abs n = (if n = INT_MIN then INT_MIN else \<bar>n\<bar>)"

definition process_eval :: "int \<Rightarrow> int" where
  "process_eval num =
     (if c_abs num < MATE_THRESHOLD then num
      else if num \<ge> MATE_THRESHOLD then num - 1
      else num + 1)"

definition piece_values :: "char \<Rightarrow> int option" where
  "piece_values c =
     (if c = CHR ''K'' then Some 1000 else if c = CHR ''Q'' then Some 9
      else if c = CHR ''R'' then Some 5 else if c = CHR ''N'' then Some 3
      else if c = CHR ''B'' then Some 3 else if c = CHR ''P'' then Some 1
      else if c = CHR ''k'' then Some (- 1000) else if c = CHR ''q'' then Some (- 9)
      else if c = CHR ''r'' then Some (- 5) else if c = CHR ''n'' then Some (- 3)
      else if c = CHR ''b'' then Some (- 3) else if c = CHR ''p'' then Some (- 1)
      else None)"

section \<open>The position hash and the cache\<close>

text \<open>
  \<^verbatim>\<open>std::hash\<close> is fixed by the C++ library, not by this program: the three instances that
  \<^verbatim>\<open>get_hash\<close> uses are parameters.  \<^verbatim>\<open>m_board\<close> is hashed as a C string, up to its first
  null character.
\<close>

record std_hash =
  hash_string :: "string \<Rightarrow> 64 word"
  hash_int :: "int \<Rightarrow> 64 word"
  hash_char :: "char \<Rightarrow> 64 word"

definition get_hash :: "std_hash \<Rightarrow> position \<Rightarrow> 64 word" where
  "get_hash H pos =
     hash_string H (takeWhile (\<lambda>c. c \<noteq> CHR 0x00) (m_board pos))
     XOR push_bit 1 (hash_int H (m_en_passant pos))
     XOR push_bit 2 (hash_char H (m_to_move pos))"

text \<open>The cache maps a hash to the pair (depth, evaluation).\<close>

type_synonym cache = "64 word \<rightharpoonup> int \<times> int"

text \<open>\<^verbatim>\<open>cache->insert\<close> leaves an existing entry as it is.\<close>

definition cache_insert :: "cache \<Rightarrow> 64 word \<Rightarrow> int \<times> int \<Rightarrow> cache" where
  "cache_insert cache hash v = (case cache hash of None \<Rightarrow> cache(hash \<mapsto> v) | Some _ \<Rightarrow> cache)"

text \<open>
  The source's \<^verbatim>\<open>if(cached_result != cache->end()) cached_result->second = v; else
  cache->insert({hash, v})\<close>, where \<open>cached\<close> says whether the lookup at the start of
  \<^verbatim>\<open>evaluate\<close> found an entry.
\<close>

definition cache_store :: "bool \<Rightarrow> cache \<Rightarrow> 64 word \<Rightarrow> int \<times> int \<Rightarrow> cache" where
  "cache_store cached cache hash v = (if cached then cache(hash \<mapsto> v) else cache_insert cache hash v)"

definition get_eval_guess :: "64 word \<Rightarrow> cache \<Rightarrow> int" where
  "get_eval_guess hash cache = (case cache hash of Some (d, e) \<Rightarrow> e | None \<Rightarrow> 0)"

section \<open>The evaluator (engine.cpp)\<close>

text \<open>The material count of a leaf; a letter outside \<^verbatim>\<open>piece_values\<close> has no defined value.\<close>

fun material :: "(char \<times> int) list \<Rightarrow> error + int" where
  "material [] = Inr 0"
| "material (p # ps) =
     (case piece_values (fst p) of
        None \<Rightarrow> Inl Undefined_behaviour
      | Some v \<Rightarrow> (case material ps of Inl e \<Rightarrow> Inl e | Inr r \<Rightarrow> Inr (v + r)))"

text \<open>The move-ordering loop: make the move, read the guess for the child, undo.\<close>

fun guess_moves ::
  "std_hash \<Rightarrow> cache \<Rightarrow> position \<Rightarrow> move list \<Rightarrow> error + ((int \<times> move) list \<times> position)" where
  "guess_moves H cache pos [] = Inr ([], pos)"
| "guess_moves H cache pos (m # ms) =
     (case perform_move pos m of
        Inl e \<Rightarrow> Inl e
      | Inr pos1 \<Rightarrow>
     (case undo_move pos1 of
        Inl e \<Rightarrow> Inl e
      | Inr pos2 \<Rightarrow>
     (case guess_moves H cache pos2 ms of
        Inl e \<Rightarrow> Inl e
      | Inr (rest, pos3) \<Rightarrow> Inr ((get_eval_guess (get_hash H pos1) cache, m) # rest, pos3))))"

text \<open>
  \<^verbatim>\<open>std::sort\<close> with \<^verbatim>\<open>sort_moves\<close>: descending by the guess.  The order among equal
  guesses is not fixed by the standard; the model keeps it.
\<close>

definition sort_moves :: "(int \<times> move) list \<Rightarrow> (int \<times> move) list" where
  "sort_moves ms = sort_key (\<lambda>p. - fst p) ms"

text \<open>
  The search loop.  \<open>child\<close> is the recursive call \<^verbatim>\<open>evaluate(position, maxdepth-1, cache,
  -beta, -alfa)\<close>.  The loop ends either at the cutoff, with the value of \<^verbatim>\<open>eval\<close> there, or
  after the last move.
\<close>

datatype search_end = Cutoff int | Completed int

fun search_moves ::
  "(position \<Rightarrow> cache \<Rightarrow> int \<Rightarrow> int \<Rightarrow> error + (int \<times> position \<times> cache)) \<Rightarrow> int \<Rightarrow> int \<Rightarrow>
   (int \<times> move) list \<Rightarrow> position \<Rightarrow> cache \<Rightarrow> int \<Rightarrow> int \<Rightarrow> error + (search_end \<times> position \<times> cache)" where
  "search_moves child side beta [] pos cache alfa eval = Inr (Completed eval, pos, cache)"
| "search_moves child side beta (gm # rest) pos cache alfa eval =
     (case perform_move pos (snd gm) of
        Inl e \<Rightarrow> Inl e
      | Inr pos1 \<Rightarrow>
     (case child pos1 cache (- beta) (- alfa) of
        Inl e \<Rightarrow> Inl e
      | Inr (r, pos2, cache2) \<Rightarrow>
     (let new_eval = r * side;
          eval' = (if new_eval > eval then new_eval else eval);
          alfa' = (if new_eval > eval \<and> eval' > alfa then eval' else alfa)
      in case undo_move pos2 of
           Inl e \<Rightarrow> Inl e
         | Inr pos3 \<Rightarrow>
             if process_eval eval' \<ge> beta then Inr (Cutoff eval', pos3, cache2)
             else search_moves child side beta rest pos3 cache2 alfa' eval')))"

lemma search_moves_cong [fundef_cong]:
  assumes "\<And>p c a b. child p c a b = child' p c a b"
  shows "search_moves child side beta ms pos cache alfa eval
       = search_moves child' side beta ms pos cache alfa eval"
proof -
  have "child = child'" using assms by (intro ext)
  then show ?thesis by simp
qed

definition cache_hit :: "cache \<Rightarrow> 64 word \<Rightarrow> int \<Rightarrow> int option" where
  "cache_hit cache hash maxdepth =
     (case cache hash of
        Some (d, e) \<Rightarrow> if d \<ge> maxdepth then Some e else None
      | None \<Rightarrow> None)"

function evaluate ::
  "std_hash \<Rightarrow> position \<Rightarrow> int \<Rightarrow> cache \<Rightarrow> int \<Rightarrow> int \<Rightarrow> error + (int \<times> position \<times> cache)" where
  "evaluate H pos maxdepth cache alfa beta =
     (let hash = get_hash H pos in
      case cache_hit cache hash maxdepth of
        Some e \<Rightarrow> Inr (e, pos, cache)
      | None \<Rightarrow>
     (case get_possible_moves pos of
        Inl e \<Rightarrow> Inl e
      | Inr (possible_moves, pos0) \<Rightarrow>
     (let side = (if m_to_move pos0 = CHR ''w'' then 1 else - 1) in
      if possible_moves = [] then
        (case find_entry (m_pieces pos0) (king_letter pos0) of
           None \<Rightarrow> Inl Undefined_behaviour
         | Some king \<Rightarrow>
             if square_hit pos0 (snd king) (m_to_move pos0 \<noteq> CHR ''w'')
             then Inr (- side * MATE, pos0, cache_insert cache hash (INT_MAX, - side * MATE))
             else Inr (0, pos0, cache_insert cache hash (INT_MAX, 0)))
      else if length (m_pieces pos0) \<le> 2 then
        Inr (0, pos0, cache_insert cache hash (INT_MAX, 0))
      else if maxdepth \<le> 0 then
        (case material (m_pieces pos0) of
           Inl e \<Rightarrow> Inl e
         | Inr result \<Rightarrow>
             Inr (result, pos0, cache_store (cache hash \<noteq> None) cache hash (maxdepth, result)))
      else
        (case guess_moves H cache pos0 possible_moves of
           Inl e \<Rightarrow> Inl e
         | Inr (ordered_moves, pos1) \<Rightarrow>
        (case search_moves (\<lambda>p c a b. evaluate H p (maxdepth - 1) c a b) side beta
                (sort_moves ordered_moves) pos1 cache alfa (- MATE) of
           Inl e \<Rightarrow> Inl e
         | Inr (Cutoff eval, pos2, cache2) \<Rightarrow> Inr (process_eval eval * side, pos2, cache2)
         | Inr (Completed eval, pos2, cache2) \<Rightarrow>
             Inr (process_eval eval * side, pos2,
                  cache_store (cache hash \<noteq> None) cache2 hash
                    (if \<bar>eval\<bar> > MATE_THRESHOLD then INT_MAX else maxdepth,
                     process_eval eval * side)))))))"
  by pat_completeness auto
termination
  by (relation "measure (\<lambda>(H, pos, maxdepth, cache, alfa, beta). nat maxdepth)") auto

declare evaluate.simps [simp del]

section \<open>The driver (engine.cpp)\<close>

text \<open>The \<^verbatim>\<open>for\<close> loop of \<^verbatim>\<open>iter_evaluate\<close>, from \<open>depth\<close> up to \<open>maxdepth\<close>.\<close>

function iter_loop ::
  "std_hash \<Rightarrow> position \<Rightarrow> int \<Rightarrow> int \<Rightarrow> cache \<Rightarrow> error + (position \<times> cache)" where
  "iter_loop H pos depth maxdepth cache =
     (if depth \<le> maxdepth then
        (case evaluate H pos depth cache (- MATE) MATE of
           Inl e \<Rightarrow> Inl e
         | Inr (r, pos', cache') \<Rightarrow> iter_loop H pos' (depth + 1) maxdepth cache')
      else Inr (pos, cache))"
  by pat_completeness auto
termination
  by (relation "measure (\<lambda>(H, pos, depth, maxdepth, cache). nat (maxdepth + 1 - depth))") auto

declare iter_loop.simps [simp del]

definition iter_evaluate ::
  "std_hash \<Rightarrow> position \<Rightarrow> int \<Rightarrow> cache \<Rightarrow> error + (int \<times> position \<times> cache)" where
  "iter_evaluate H pos maxdepth cache =
     (case iter_loop H pos 1 maxdepth cache of
        Inl e \<Rightarrow> Inl e
      | Inr (pos', cache') \<Rightarrow> evaluate H pos' maxdepth cache' (- MATE) MATE)"

text \<open>\<^verbatim>\<open>std::to_string\<close> of an \<^verbatim>\<open>int\<close>: the decimal digits, with a minus sign when negative.\<close>

function nat_to_string :: "nat \<Rightarrow> string" where
  "nat_to_string n =
     (if n < 10 then [char_of (48 + int n)]
      else nat_to_string (n div 10) @ [char_of (48 + int (n mod 10))])"
  by pat_completeness auto
termination
  by (relation "measure id") auto

declare nat_to_string.simps [simp del]

definition int_to_string :: "int \<Rightarrow> string" where
  "int_to_string i = (if i < 0 then ''-'' @ nat_to_string (nat (- i)) else nat_to_string (nat i))"

text \<open>The text that \<^verbatim>\<open>find_fastest_mate\<close> builds from a mate score.\<close>

definition mate_label :: "int \<Rightarrow> string" where
  "mate_label eval =
     (if eval > 0 then ''White '' else ''Black '') @ ''mates in ''
     @ int_to_string ((MATE - \<bar>eval\<bar> + 1) sdiv 2)"

text \<open>The \<^verbatim>\<open>for\<close> loop of \<^verbatim>\<open>find_fastest_mate\<close>, from \<open>depth\<close> up to \<open>max_moves - 1\<close>.\<close>

function fastest_mate_loop ::
  "std_hash \<Rightarrow> position \<Rightarrow> int \<Rightarrow> int \<Rightarrow> cache \<Rightarrow> error + (string \<times> position \<times> cache)" where
  "fastest_mate_loop H pos depth max_moves cache =
     (if depth < max_moves then
        (case evaluate H pos (2 * depth) cache (- MATE) MATE of
           Inl e \<Rightarrow> Inl e
         | Inr (eval, pos', cache') \<Rightarrow>
             if \<bar>eval\<bar> > MATE_THRESHOLD then Inr (mate_label eval, pos', cache')
             else fastest_mate_loop H pos' (depth + 1) max_moves cache')
      else Inr (''Unknown result'', pos, cache))"
  by pat_completeness auto
termination
  by (relation "measure (\<lambda>(H, pos, depth, max_moves, cache). nat (max_moves - depth))") auto

declare fastest_mate_loop.simps [simp del]

definition find_fastest_mate ::
  "std_hash \<Rightarrow> position \<Rightarrow> int \<Rightarrow> cache \<Rightarrow> error + (string \<times> position \<times> cache)" where
  "find_fastest_mate H pos max_moves cache = fastest_mate_loop H pos 0 max_moves cache"

text \<open>
  The loop of \<^verbatim>\<open>play_random_best\<close> over the shuffled moves: it returns with the first move
  whose evaluation meets the target still on the board, and throws after the last one.
\<close>

fun try_moves ::
  "std_hash \<Rightarrow> int \<Rightarrow> int \<Rightarrow> move list \<Rightarrow> position \<Rightarrow> cache \<Rightarrow> error + (position \<times> cache)" where
  "try_moves H max_depth target [] pos cache = Inl Internal_logic_error"
| "try_moves H max_depth target (m # ms) pos cache =
     (case perform_move pos m of
        Inl e \<Rightarrow> Inl e
      | Inr pos1 \<Rightarrow>
     (case iter_evaluate H pos1 (max_depth - 1) cache of
        Inl e \<Rightarrow> Inl e
      | Inr (r, pos2, cache2) \<Rightarrow>
          if process_eval r = target then Inr (pos2, cache2)
          else (case undo_move pos2 of
                  Inl e \<Rightarrow> Inl e
                | Inr pos3 \<Rightarrow> try_moves H max_depth target ms pos3 cache2)))"

text \<open>
  \<^verbatim>\<open>play_random_best\<close>.  \<^verbatim>\<open>std::random_shuffle\<close> draws from the process-wide generator; the
  permutation it applies to the legal moves is the parameter \<open>shuffle\<close>.
\<close>

definition play_random_best ::
  "std_hash \<Rightarrow> (move list \<Rightarrow> move list) \<Rightarrow> position \<Rightarrow> int \<Rightarrow> cache \<Rightarrow> error + (position \<times> cache)" where
  "play_random_best H shuffle pos max_depth cache =
     (case get_possible_moves pos of
        Inl e \<Rightarrow> Inl e
      | Inr (possible, pos0) \<Rightarrow>
          (let moves = shuffle possible in
           if moves = [] then Inr (pos0, cache)
           else
             (case iter_evaluate H pos0 max_depth (cache(get_hash H pos0 := None)) of
                Inl e \<Rightarrow> Inl e
              | Inr (target, pos1, cache1) \<Rightarrow> try_moves H max_depth target moves pos1 cache1)))"

section \<open>FEN (position.cpp)\<close>

text \<open>
  \<^verbatim>\<open>FEN[j]\<close>: the character at \<open>j\<close>, the null character at \<open>j = size\<close>, and nothing defined
  beyond.
\<close>

definition fen_at :: "string \<Rightarrow> nat \<Rightarrow> error + char" where
  "fen_at fen j =
     (if j < length fen then Inr (fen ! j)
      else if j = length fen then Inr (CHR 0x00)
      else Inl Undefined_behaviour)"

definition is_digit :: "char \<Rightarrow> bool" where
  "is_digit c \<longleftrightarrow> (48::int) \<le> of_char c \<and> of_char c \<le> (57::int)"

text \<open>
  The first loop of the constructor \<^verbatim>\<open>Position(std::string FEN)\<close>.  \<open>board\<close> holds the
  squares \<open>0 .. i - 1\<close> written so far.  A run of empty squares that crosses square 63 writes
  outside the 64 squares.
\<close>

function parse_board ::
  "string \<Rightarrow> nat \<Rightarrow> nat \<Rightarrow> char list \<Rightarrow> (char \<times> int) list \<Rightarrow>
   error + (char list \<times> (char \<times> int) list \<times> nat)" where
  "parse_board fen i j board pcs =
     (if i < 64 then
        (case fen_at fen j of
           Inl e \<Rightarrow> Inl e
         | Inr c \<Rightarrow>
             if c = CHR ''/'' then parse_board fen i (j + 1) board pcs
             else if is_digit c then
               (let n = nat (of_char c - 48) in
                if i + n > 64 then Inl Undefined_behaviour
                else parse_board fen (i + n) (j + 1) (board @ replicate n (CHR ''.'')) pcs)
             else parse_board fen (i + 1) (j + 1) (board @ [c]) (insert_entry pcs (c, int i)))
      else Inr (board, pcs, j))"
  by pat_completeness auto
termination
  by (relation "measure (\<lambda>(fen, i, j, board, pcs). length fen + 1 - j)")
     (auto simp add: fen_at_def split: if_splits)

declare parse_board.simps [simp del]

text \<open>The loop that skips the castling field.\<close>

function skip_castles :: "string \<Rightarrow> nat \<Rightarrow> error + nat" where
  "skip_castles fen j =
     (case fen_at fen j of
        Inl e \<Rightarrow> Inl e
      | Inr c \<Rightarrow> if c \<noteq> CHR '' '' then skip_castles fen (j + 1) else Inr j)"
  by pat_completeness auto
termination
  by (relation "measure (\<lambda>(fen, j). length fen + 1 - j)")
     (auto simp add: fen_at_def split: if_splits)

declare skip_castles.simps [simp del]

definition Position_FEN :: "string \<Rightarrow> error + position" where
  "Position_FEN fen =
     (case parse_board fen 0 0 [] [] of
        Inl e \<Rightarrow> Inl e
      | Inr (board, pcs, j) \<Rightarrow>
     (case fen_at fen (j + 1) of
        Inl e \<Rightarrow> Inl e
      | Inr to_move \<Rightarrow>
     (case skip_castles fen (j + 3) of
        Inl e \<Rightarrow> Inl e
      | Inr j' \<Rightarrow>
     (case fen_at fen (j' + 1) of
        Inl e \<Rightarrow> Inl e
      | Inr c0 \<Rightarrow>
          if c0 = CHR ''-'' then
            Inr \<lparr>m_board = board, m_to_move = to_move, m_en_passant = - 1,
                 m_pieces = pcs, m_prev_moves = []\<rparr>
          else
            (case fen_at fen (j' + 2) of
               Inl e \<Rightarrow> Inl e
             | Inr c1 \<Rightarrow>
                 (case get_square_str c0 c1 of
                    Inl e \<Rightarrow> Inl e
                  | Inr sq \<Rightarrow>
                      Inr \<lparr>m_board = board, m_to_move = to_move, m_en_passant = sq,
                           m_pieces = pcs, m_prev_moves = []\<rparr>))))))"

text \<open>
  The loop of \<^verbatim>\<open>get_fen\<close> over the squares from \<open>i\<close> on, with \<open>empty_buffer\<close> empty
  squares pending.
\<close>

fun fen_board :: "char list \<Rightarrow> nat \<Rightarrow> nat \<Rightarrow> string" where
  "fen_board [] i empty_buffer = []"
| "fen_board (c # cs) i empty_buffer =
     (let out = (if c = CHR ''.'' then []
                 else (if empty_buffer > 0 then int_to_string (int empty_buffer) else []) @ [c]);
          pending = (if c = CHR ''.'' then empty_buffer + 1 else 0)
      in if i mod 8 = 7 then
           out @ (if pending > 0 then int_to_string (int pending) else [])
           @ (if i \<noteq> 63 then ''/'' else []) @ fen_board cs (i + 1) 0
         else out @ fen_board cs (i + 1) pending)"

definition get_fen :: "position \<Rightarrow> string" where
  "get_fen pos =
     fen_board (m_board pos) 0 0 @ '' '' @ [m_to_move pos] @ '' - ''
     @ (if m_en_passant pos = - 1 then ''-'' else square_string (m_en_passant pos))
     @ '' 0 1''"

text \<open>The starting position, \<^verbatim>\<open>Position()\<close>.\<close>

definition Position_start :: "error + position" where
  "Position_start = Position_FEN ''rnbqkbnr/pppppppp/8/8/8/8/PPPPPPPP/RNBQKBNR w KQkq - 0 1''"

section \<open>Invariants and auxiliary notions\<close>

definition consistent :: "position \<Rightarrow> bool" where
  "consistent pos \<longleftrightarrow>
     length (m_board pos) = 64
     \<and> (\<forall>e \<in> set (m_pieces pos). 0 \<le> snd e \<and> snd e < 64 \<and> m_board pos ! nat (snd e) = fst e
           \<and> fst e \<noteq> CHR ''.'')
     \<and> distinct (m_pieces pos)
     \<and> (m_to_move pos = CHR ''w'' \<or> m_to_move pos = CHR ''b'')"

definition same_position :: "position \<Rightarrow> position \<Rightarrow> bool" where
  "same_position p q \<longleftrightarrow>
     m_board p = m_board q \<and> m_to_move p = m_to_move q \<and> m_en_passant p = m_en_passant q
     \<and> mset (m_pieces p) = mset (m_pieces q) \<and> m_prev_moves p = m_prev_moves q"

definition special_letters :: "char list" where
  "special_letters = [no_special, CHR ''E'', CHR ''e'', CHR ''Q'', CHR ''R'', CHR ''N'', CHR ''B'',
     CHR ''q'', CHR ''r'', CHR ''n'', CHR ''b'']"

definition move_fits :: "position \<Rightarrow> move \<Rightarrow> bool" where
  "move_fits pos m \<longleftrightarrow>
     0 \<le> m_to m \<and> m_to m < 64
     \<and> m_captured m = m_board pos ! nat (m_to m)
     \<and> m_last_enpassant m = m_en_passant pos
     \<and> (m_piece m, m_from m) \<in> set (m_pieces pos)
     \<and> m_special m \<in> set special_letters"

definition agrees :: "char list \<Rightarrow> (char \<times> int) list \<Rightarrow> bool" where
  "agrees b pcs \<longleftrightarrow>
     length b = 64
     \<and> (\<forall>e \<in> set pcs. 0 \<le> snd e \<and> snd e < 64 \<and> b ! nat (snd e) = fst e \<and> fst e \<noteq> CHR ''.'')
     \<and> distinct pcs"

definition basic_pieces :: "(char \<times> int) multiset \<Rightarrow> move \<Rightarrow> (char \<times> int) multiset" where
  "basic_pieces M m =
     add_mset (m_piece m, m_to m)
       ((if m_captured m \<noteq> CHR ''.'' then M - {#(m_captured m, m_to m)#} else M)
        - {#(m_piece m, m_from m)#})"

definition basic_board :: "char list \<Rightarrow> move \<Rightarrow> char list" where
  "basic_board b m = b[nat (m_from m) := CHR ''.'', nat (m_to m) := m_piece m]"

definition generated :: "position \<Rightarrow> char \<Rightarrow> int \<Rightarrow> move \<Rightarrow> bool" where
  "generated pos piece square m \<longleftrightarrow>
     m_from m = square \<and> m_piece m = piece \<and> 0 \<le> m_to m \<and> m_to m < 64
     \<and> m_captured m = board_at pos (m_to m) \<and> m_last_enpassant m = m_en_passant pos
     \<and> m_special m \<in> set special_letters"

definition single_king :: "position \<Rightarrow> bool" where
  "single_king pos \<longleftrightarrow>
     (\<forall>s s'. (king_letter pos, s) \<in> set (m_pieces pos) \<longrightarrow>
              (king_letter pos, s') \<in> set (m_pieces pos) \<longrightarrow> s = s')"

definition king_safe_after :: "position \<Rightarrow> move \<Rightarrow> bool" where
  "king_safe_after pos m \<longleftrightarrow>
     (case perform_move pos m of
        Inl e \<Rightarrow> False
      | Inr pos1 \<Rightarrow>
          (case find_entry (m_pieces pos1) (king_letter pos) of
             None \<Rightarrow> False
           | Some k \<Rightarrow> \<not> square_hit pos1 (snd k) (\<not> is_upper (fst k))))"

text \<open>
  The scores of the calls \<open>evaluate(pos, 2 \<sqdot> d, cache)\<close> for \<open>d = 0 .. n - 1\<close>, made in
  increasing order of \<open>d\<close> on the one position and the one cache.
\<close>

fun scores_upto ::
  "std_hash \<Rightarrow> position \<Rightarrow> cache \<Rightarrow> nat \<Rightarrow> error + (int list \<times> position \<times> cache)" where
  "scores_upto H pos cache 0 = Inr ([], pos, cache)"
| "scores_upto H pos cache (Suc n) =
     (case scores_upto H pos cache n of
        Inl e \<Rightarrow> Inl e
      | Inr (ss, p, c) \<Rightarrow>
          (case evaluate H p (2 * int n) c (- MATE) MATE of
             Inl e \<Rightarrow> Inl e
           | Inr (s, p', c') \<Rightarrow> Inr (ss @ [s], p', c')))"

subsection \<open>Positions that a FEN string describes\<close>

text \<open>The entries that a board holds from square \<open>i\<close> on: one for each square that is not empty.\<close>

fun entries_from :: "nat \<Rightarrow> char list \<Rightarrow> (char \<times> int) list" where
  "entries_from i [] = []"
| "entries_from i (c # cs) =
     (if c = CHR ''.'' then [] else [(c, int i)]) @ entries_from (Suc i) cs"

definition fen_letter :: "char \<Rightarrow> bool" where
  "fen_letter c \<longleftrightarrow> \<not> is_digit c \<and> c \<noteq> CHR ''/''"

text \<open>
  A position that a FEN string can describe: 64 board entries, none of them a digit or a
  slash, a piece list holding exactly the non-empty squares, and an en-passant square that
  is \<open>-1\<close> or on the board.
\<close>

definition fen_position :: "position \<Rightarrow> bool" where
  "fen_position P \<longleftrightarrow>
     length (m_board P) = 64
     \<and> (\<forall>c \<in> set (m_board P). fen_letter c)
     \<and> mset (m_pieces P) = mset (entries_from 0 (m_board P))
     \<and> (m_en_passant P = - 1 \<or> (0 \<le> m_en_passant P \<and> m_en_passant P < 64))"

text \<open>Every square that is not empty has its entry in the piece list.\<close>

definition covers :: "char list \<Rightarrow> (char \<times> int) list \<Rightarrow> bool" where
  "covers b pcs \<longleftrightarrow> (\<forall>i < length b. b ! i \<noteq> CHR ''.'' \<longrightarrow> (b ! i, int i) \<in> set pcs)"

subsection \<open>The colour swap\<close>

text \<open>
  The position with the colours of all pieces swapped and the other side to move: every
  letter changes its case, on the board, in the piece list and in the moves of the history.
\<close>

definition is_letter :: "char \<Rightarrow> bool" where
  "is_letter c \<longleftrightarrow> is_upper c \<or> is_lower c"

definition swap_case :: "char \<Rightarrow> char" where
  "swap_case c = (if is_upper c then to_lower c else if is_lower c then to_upper c else c)"

definition swap_entry :: "char \<times> int \<Rightarrow> char \<times> int" where
  "swap_entry e = (swap_case (fst e), snd e)"

definition swap_move :: "move \<Rightarrow> move" where
  "swap_move m = m\<lparr>m_piece := swap_case (m_piece m), m_captured := swap_case (m_captured m),
                   m_special := swap_case (m_special m)\<rparr>"

definition swap_colors :: "position \<Rightarrow> position" where
  "swap_colors P =
     \<lparr>m_board = map swap_case (m_board P),
      m_to_move = swap_to_move (m_to_move P),
      m_en_passant = m_en_passant P,
      m_pieces = map swap_entry (m_pieces P),
      m_prev_moves = map swap_move (m_prev_moves P)\<rparr>"

text \<open>
  A letter other than \<open>p\<close> and \<open>P\<close>; a position without pawns; a move of such a piece that
  is no promotion and no en-passant capture.
\<close>

definition officer :: "char \<Rightarrow> bool" where
  "officer c \<longleftrightarrow> is_letter c \<and> to_lower c \<noteq> CHR ''p''"



section \<open>Example positions\<close>

definition fnv1a :: "string \<Rightarrow> 64 word" where
  "fnv1a s = foldl (\<lambda>h c. (h XOR of_char c) * 1099511628211) 14695981039346656037 s"

definition example_hash :: std_hash where
  "example_hash = \<lparr>hash_string = fnv1a, hash_int = word_of_int, hash_char = of_char\<rparr>"

definition no_shuffle :: "move list \<Rightarrow> move list" where
  "no_shuffle xs = xs"

definition ep_position :: position where
  "ep_position =
     \<lparr>m_board = ''....k......................pP...............................K...'',
      m_to_move = CHR ''w'', m_en_passant = 19,
      m_pieces = [(CHR ''k'', 4), (CHR ''p'', 27), (CHR ''P'', 28), (CHR ''K'', 60)],
      m_prev_moves = []\<rparr>"

definition ep_moves :: "move list" where
  "ep_moves =
     [Move 28 19 (CHR ''P'') (CHR ''.'') (CHR ''E'') 19,
      Move 28 20 (CHR ''P'') (CHR ''.'') no_special 19,
      Move 60 53 (CHR ''K'') (CHR ''.'') no_special 19,
      Move 60 51 (CHR ''K'') (CHR ''.'') no_special 19,
      Move 60 61 (CHR ''K'') (CHR ''.'') no_special 19,
      Move 60 59 (CHR ''K'') (CHR ''.'') no_special 19,
      Move 60 52 (CHR ''K'') (CHR ''.'') no_special 19]"

definition ep_generated :: position where
  "ep_generated =
     ep_position\<lparr>m_pieces := [(CHR ''k'', 4), (CHR ''P'', 28), (CHR ''K'', 60), (CHR ''p'', 27)]\<rparr>"

definition corner_position :: position where
  "corner_position =
     \<lparr>m_board = ''........................................k.......P.......K.......'',
      m_to_move = CHR ''w'', m_en_passant = - 1,
      m_pieces = [(CHR ''k'', 40), (CHR ''P'', 48), (CHR ''K'', 56)],
      m_prev_moves = []\<rparr>"

definition corner_after :: position where
  "corner_after =
     \<lparr>m_board = ''........................................k.......P........K......'',
      m_to_move = CHR ''b'', m_en_passant = - 1,
      m_pieces = [(CHR ''k'', 40), (CHR ''K'', 57), (CHR ''P'', 48)],
      m_prev_moves = [Move 56 57 (CHR ''K'') (CHR ''.'') no_special (- 1)]\<rparr>"

definition stalemate_position :: position where
  "stalemate_position =
     \<lparr>m_board = ''.......k.....K........Q.........................................'',
      m_to_move = CHR ''b'', m_en_passant = - 1,
      m_pieces = [(CHR ''k'', 7), (CHR ''K'', 13), (CHR ''Q'', 22)],
      m_prev_moves = []\<rparr>"

definition checkmate_position :: position where
  "checkmate_position =
     \<lparr>m_board = ''.......k......Q......K..........................................'',
      m_to_move = CHR ''b'', m_en_passant = - 1,
      m_pieces = [(CHR ''k'', 7), (CHR ''Q'', 14), (CHR ''K'', 21)],
      m_prev_moves = []\<rparr>"

definition checkmate_generated :: position where
  "checkmate_generated =
     checkmate_position\<lparr>m_pieces := [(CHR ''k'', 7), (CHR ''K'', 21), (CHR ''Q'', 14)]\<rparr>"

definition stale_cache :: cache where
  "stale_cache = [get_hash example_hash stalemate_position \<mapsto> (5, 7)]"

definition pawn_mate_position :: position where
  "pawn_mate_position =
     \<lparr>m_board = ''.......k.....P........P................K........................'',
      m_to_move = CHR ''w'', m_en_passant = - 1,
      m_pieces = [(CHR ''k'', 7), (CHR ''P'', 13), (CHR ''P'', 22), (CHR ''K'', 39)],
      m_prev_moves = []\<rparr>"





section \<open>Results about the move notation\<close>

lemma to_lower_simps:
  "to_lower (CHR ''P'') = CHR ''p''" "to_lower (CHR ''p'') = CHR ''p''"
  "to_lower (CHR ''E'') = CHR ''e''" "to_lower (CHR ''e'') = CHR ''e''"
  by (simp_all add: to_lower_def is_upper_def char_of_def)

text \<open>
  Claim C10.  An en-passant move (a pawn move whose \<open>special\<close> is \<open>E\<close> or \<open>e\<close>, and whose
  \<open>captured\<close> is therefore \<open>.\<close>) is rendered by \<open>to_full_string\<close> with the separator \<open>-\<close>
  between source and destination square, while \<open>to_string\<close> renders it as a capture: the
  source file, \<open>x\<close>, and the destination square.
\<close>

theorem en_passant_notation:
  assumes "m_piece m = CHR ''P'' \<or> m_piece m = CHR ''p''"
    and "m_special m = CHR ''E'' \<or> m_special m = CHR ''e''"
    and "m_captured m = CHR ''.''"
  shows "to_full_string m = square_string (m_from m) @ ''-'' @ square_string (m_to m)
       \<and> to_string m = [hd (square_string (m_from m)), CHR ''x''] @ square_string (m_to m)"
  using assms
  by (auto simp add: to_full_string_def to_string_def to_lower_simps no_special_def)

theorem en_passant_notation_witness:
  "to_full_string (Move 28 19 (CHR ''P'') (CHR ''.'') (CHR ''E'') 19) = ''e5-d6''
   \<and> to_string (Move 28 19 (CHR ''P'') (CHR ''.'') (CHR ''E'') 19) = ''exd6''"
  using en_passant_notation [of "Move 28 19 (CHR ''P'') (CHR ''.'') (CHR ''E'') 19"]
  by (simp add: Move_def square_string_def signed_divide_int_def signed_modulo_int_def
      char_of_def)

section \<open>Results about the mate-distance function\<close>

text \<open>
  Claim C5, as amended.  For every \<^verbatim>\<open>int\<close> \<open>x\<close>, \<open>process_eval\<close> returns \<open>x\<close> unchanged
  whenever \<open>|x| < MATE_THRESHOLD\<close> (strictly), returns \<open>x - 1\<close> whenever
  \<open>x \<ge> MATE_THRESHOLD\<close>, and returns \<open>x + 1\<close> whenever \<open>INT_MIN < x \<le> - MATE_THRESHOLD\<close>.
  At \<open>x = INT_MIN\<close>, where \<^verbatim>\<open>abs(x)\<close> overflows to \<open>INT_MIN\<close>, it returns \<open>x\<close> unchanged.
\<close>

theorem process_eval_cases:
  assumes "INT_MIN \<le> x" and "x \<le> INT_MAX"
  shows "(\<bar>x\<bar> < MATE_THRESHOLD \<longrightarrow> process_eval x = x)
       \<and> (x \<ge> MATE_THRESHOLD \<longrightarrow> process_eval x = x - 1)
       \<and> (INT_MIN < x \<and> x \<le> - MATE_THRESHOLD \<longrightarrow> process_eval x = x + 1)
       \<and> (x = INT_MIN \<longrightarrow> process_eval x = x)"
  using assms
  by (auto simp add: process_eval_def c_abs_def MATE_THRESHOLD_def INT_MIN_def INT_MAX_def)

theorem process_eval_cases_witness:
  "process_eval 5 = 5 \<and> process_eval 2000 = 1999 \<and> process_eval (- 2000) = - 1999
   \<and> process_eval (- 2147483647) = - 2147483646
   \<and> process_eval (- 2147483648) = - 2147483648"
  using process_eval_cases [of 5] process_eval_cases [of 2000] process_eval_cases [of "- 2000"]
    process_eval_cases [of "- 2147483647"] process_eval_cases [of "- 2147483648"]
  by (simp add: MATE_THRESHOLD_def INT_MIN_def INT_MAX_def)

text \<open>
  At the threshold itself the score is not returned unchanged: the claim's first clause,
  with \<open>|x| \<le> MATE_THRESHOLD\<close>, fails at \<open>x = 2000\<close>.  And at \<open>x = INT_MIN\<close>, which is below
  \<open>- MATE_THRESHOLD\<close>, the score is returned unchanged, not raised by one.
\<close>

theorem process_eval_threshold_counterexample:
  "\<bar>2000 :: int\<bar> \<le> MATE_THRESHOLD \<and> process_eval 2000 \<noteq> 2000
   \<and> INT_MIN \<le> - MATE_THRESHOLD \<and> process_eval INT_MIN \<noteq> INT_MIN + 1"
  by (simp add: process_eval_def c_abs_def MATE_THRESHOLD_def INT_MIN_def)

section \<open>Making and undoing a move\<close>

lemma set_square_absent: "e \<notin> set xs \<Longrightarrow> set_square xs e t = xs"
  by (induction xs) auto

lemma set_set_square:
  "distinct xs \<Longrightarrow>
   set (set_square xs e t) = (if e \<in> set xs then insert (fst e, t) (set xs - {e}) else set xs)"
  by (induction xs) (auto simp add: set_square_absent)

lemma distinct_set_square:
  "distinct xs \<Longrightarrow> (fst e, t) \<notin> set xs - {e} \<Longrightarrow> distinct (set_square xs e t)"
  by (induction xs) (auto simp add: set_set_square split: if_splits)

lemma mset_set_square:
  "e \<in> set xs \<Longrightarrow> mset (set_square xs e t) = add_mset (fst e, t) (mset xs - {#e#})"
  by (induction xs) auto

lemma board_set_Inr: "board_set b sq c = Inr b' \<longleftrightarrow> 0 \<le> sq \<and> sq < 64 \<and> b' = b[nat sq := c]"
  by (auto simp add: board_set_def)

lemma consistent_agrees:
  "consistent pos \<longleftrightarrow> agrees (m_board pos) (m_pieces pos)
     \<and> (m_to_move pos = CHR ''w'' \<or> m_to_move pos = CHR ''b'')"
  by (auto simp add: consistent_def agrees_def)

lemma agreesD:
  assumes "agrees b pcs" and "(p, s) \<in> set pcs"
  shows "0 \<le> s" "s < 64" "b ! nat s = p" "p \<noteq> CHR ''.''"
  using assms unfolding agrees_def by force+

lemma agreesI:
  assumes "length b = 64" and "distinct pcs"
    and "\<And>p s. (p, s) \<in> set pcs \<Longrightarrow> 0 \<le> s \<and> s < 64 \<and> b ! nat s = p \<and> p \<noteq> CHR ''.''"
  shows "agrees b pcs"
  using assms unfolding agrees_def by force

lemma agrees_length: "agrees b pcs \<Longrightarrow> length b = 64"
  by (simp add: agrees_def)

lemma agrees_distinct: "agrees b pcs \<Longrightarrow> distinct pcs"
  by (simp add: agrees_def)

lemma nth_upd:
  "0 \<le> i \<Longrightarrow> 0 \<le> j \<Longrightarrow> i < int (length b) \<Longrightarrow>
   (b[nat i := c]) ! nat j = (if i = j then c else b ! nat j)"
  by (auto simp add: nth_list_update)

lemma is_upper_simps [simp]:
  "\<not> is_upper (CHR ''e'')" "is_upper (CHR ''E'')" "\<not> is_upper (CHR ''p'')" "is_upper (CHR ''P'')"
  "\<not> is_upper (CHR ''.'')"
  by (simp_all add: is_upper_def)

lemma mset_basic_pieces:
  assumes "(m_piece m, m_from m) \<in> set pcs"
    and "m_captured m \<noteq> CHR ''.'' \<longrightarrow> (m_captured m, m_to m) \<noteq> (m_piece m, m_from m)"
  shows "mset (set_square (if m_captured m \<noteq> CHR ''.''
                           then erase_entry pcs (m_captured m, m_to m) else pcs)
                (m_piece m, m_from m) (m_to m)) = basic_pieces (mset pcs) m"
  using assms by (auto simp add: basic_pieces_def erase_entry_def mset_set_square)

lemma perform_move_InrD:
  assumes "perform_move pos m = Inr pos1"
  shows "(m_piece m, m_from m) \<in> set (m_pieces pos)"
    and "0 \<le> m_from m" and "m_from m < 64" and "0 \<le> m_to m" and "m_to m < 64"
    and "m_captured m \<noteq> CHR ''.'' \<longrightarrow> (m_captured m, m_to m) \<in> set (m_pieces pos)
           \<and> (m_captured m, m_to m) \<noteq> (m_piece m, m_from m)"
    and "m_prev_moves pos1 = m_prev_moves pos @ [m]"
    and "m_to_move pos1 = swap_to_move (m_to_move pos)"
    and "perform_special
           (set_square (if m_captured m \<noteq> CHR ''.''
                        then erase_entry (m_pieces pos) (m_captured m, m_to m) else m_pieces pos)
              (m_piece m, m_from m) (m_to m))
           (basic_board (m_board pos) m) m = Inr (m_pieces pos1, m_board pos1)"
  using assms
  by (auto simp add: perform_move_def Let_def has_entry_def board_set_Inr basic_board_def
      split: if_splits sum.splits)

lemma perform_special_InrD:
  assumes "perform_special pcs b m = Inr (pcs', b')"
  shows "(m_special m = no_special \<and> pcs' = pcs \<and> b' = b)
       \<or> (m_special m = CHR ''e'' \<and> \<not> is_upper (m_piece m) \<and> (CHR ''P'', m_to m - 8) \<in> set pcs
            \<and> 0 \<le> m_to m - 8 \<and> m_to m - 8 < 64
            \<and> pcs' = erase_entry pcs (CHR ''P'', m_to m - 8)
            \<and> b' = b[nat (m_to m - 8) := CHR ''.''])
       \<or> (m_special m = CHR ''E'' \<and> is_upper (m_piece m) \<and> (CHR ''p'', m_to m + 8) \<in> set pcs
            \<and> 0 \<le> m_to m + 8 \<and> m_to m + 8 < 64
            \<and> pcs' = erase_entry pcs (CHR ''p'', m_to m + 8)
            \<and> b' = b[nat (m_to m + 8) := CHR ''.''])
       \<or> (m_special m \<noteq> no_special \<and> m_special m \<noteq> CHR ''e'' \<and> m_special m \<noteq> CHR ''E''
            \<and> is_upper (m_piece m) = is_upper (m_special m)
            \<and> 0 \<le> m_to m \<and> m_to m < 64
            \<and> pcs' = insert_entry (erase_entry pcs (m_piece m, m_to m)) (m_special m, m_to m)
            \<and> b' = b[nat (m_to m) := m_special m])"
  using assms
  by (auto simp add: perform_special_def has_entry_def board_set_Inr no_special_def
      split: if_splits sum.splits)

lemma undo_move_step:
  assumes "m_prev_moves q = hist @ [m]"
    and "0 \<le> m_to m" "m_to m < 64" "0 \<le> m_from m" "m_from m < 64"
    and "(m_board q ! nat (m_to m), m_to m) \<in> set (m_pieces q)"
    and "undo_special
           (set_square (if m_captured m \<noteq> CHR ''.''
                        then insert_entry (m_pieces q) (m_captured m, m_to m) else m_pieces q)
              (m_board q ! nat (m_to m), m_to m) (m_from m))
           ((m_board q)[nat (m_from m) := m_piece m, nat (m_to m) := m_captured m]) m
           (m_board q ! nat (m_to m)) = Inr (pcs3, b3)"
  shows "undo_move q = Inr \<lparr>m_board = b3, m_to_move = swap_to_move (m_to_move q),
           m_en_passant = m_last_enpassant m, m_pieces = pcs3, m_prev_moves = hist\<rparr>"
  using assms
  by (simp add: undo_move_def Let_def has_entry_def board_set_def board_at_def)

lemma swap_to_move_twice:
  "c = CHR ''w'' \<or> c = CHR ''b'' \<Longrightarrow> swap_to_move (swap_to_move c) = c"
  by (auto simp add: swap_to_move_def)

lemma nth_upd_if: "(b[i := c]) ! j = (if i = j \<and> i < length b then c else b ! j)"
  by (cases "i < length b") (auto simp add: nth_list_update list_update_beyond)

lemma board_restore:
  assumes "b ! i = p" and "b ! j = c"
  shows "b[i := x, j := y, i := p, j := c] = b"
    and "b ! k = e \<Longrightarrow> b[i := x, j := y, k := z, i := p, j := c, k := e] = b"
    and "b[i := x, j := y, j := z, i := p, j := c, i := p] = b"
  using assms by (auto simp add: list_eq_iff_nth_eq nth_upd_if)

lemma mset_insert_entry: "mset (insert_entry pcs e) = add_mset e (mset pcs)"
  by (simp add: insert_entry_def)

lemma mset_erase_entry: "mset (erase_entry pcs e) = mset pcs - {#e#}"
  by (simp add: erase_entry_def)

lemma basic_pieces_decomp:
  assumes "(m_piece m, m_from m) \<in> set pcs"
    and "m_captured m \<noteq> CHR ''.'' \<longrightarrow> (m_captured m, m_to m) \<in> set pcs
           \<and> (m_captured m, m_to m) \<noteq> (m_piece m, m_from m)"
  obtains M' where
    "mset pcs = (if m_captured m \<noteq> CHR ''.''
                 then add_mset (m_captured m, m_to m) (add_mset (m_piece m, m_from m) M')
                 else add_mset (m_piece m, m_from m) M')"
    and "basic_pieces (mset pcs) m = add_mset (m_piece m, m_to m) M'"
proof (cases "m_captured m = CHR ''.''")
  case True
  from assms(1) obtain A where "mset pcs = add_mset (m_piece m, m_from m) A"
    by (metis mset_add set_mset_mset)
  with True that [of A] show ?thesis by (simp add: basic_pieces_def)
next
  case False
  with assms(2) obtain A where A: "mset pcs = add_mset (m_captured m, m_to m) A"
    by (metis mset_add set_mset_mset)
  with assms False have "(m_piece m, m_from m) \<in># A"
    by (metis insert_iff set_mset_add_mset_insert set_mset_mset)
  then obtain B where "A = add_mset (m_piece m, m_from m) B"
    by (metis mset_add)
  with A False that [of B] show ?thesis by (simp add: basic_pieces_def)
qed

lemma undo_after_perform:
  assumes ag: "agrees (m_board pos) (m_pieces pos)"
    and tm: "m_to_move pos = CHR ''w'' \<or> m_to_move pos = CHR ''b''"
    and fits: "move_fits pos m"
    and pm: "perform_move pos m = Inr pos1"
    and eq: "same_position q pos1"
  shows "\<exists>pos2. undo_move q = Inr pos2 \<and> same_position pos2 pos"
proof -
  note pf = perform_move_InrD [OF pm]
  note f = agreesD [OF ag pf(1)]
  have cap: "m_captured m = m_board pos ! nat (m_to m)"
    and lep: "m_last_enpassant m = m_en_passant pos"
    using fits by (simp_all add: move_fits_def)
  have ne: "m_from m \<noteq> m_to m"
    using f cap pf(6) by auto
  have len: "length (m_board pos) = 64" using agrees_length [OF ag] .
  let ?pcs2 = "set_square (if m_captured m \<noteq> CHR ''.''
                        then erase_entry (m_pieces pos) (m_captured m, m_to m) else m_pieces pos)
              (m_piece m, m_from m) (m_to m)"
  let ?pcsq = "if m_captured m \<noteq> CHR ''.''
               then insert_entry (m_pieces q) (m_captured m, m_to m) else m_pieces q"
  let ?bq = "(m_board q)[nat (m_from m) := m_piece m, nat (m_to m) := m_captured m]"
  from basic_pieces_decomp [OF pf(1) pf(6)] obtain M' where
    M: "mset (m_pieces pos) = (if m_captured m \<noteq> CHR ''.''
                 then add_mset (m_captured m, m_to m) (add_mset (m_piece m, m_from m) M')
                 else add_mset (m_piece m, m_from m) M')"
    and "basic_pieces (mset (m_pieces pos)) m = add_mset (m_piece m, m_to m) M'"
    by blast
  with mset_basic_pieces [OF pf(1), of] pf(6)
  have M2: "mset ?pcs2 = add_mset (m_piece m, m_to m) M'" by metis
  have q: "m_board q = m_board pos1" "m_to_move q = m_to_move pos1"
    "mset (m_pieces q) = mset (m_pieces pos1)" "m_prev_moves q = m_prev_moves pos @ [m]"
    using eq pf(7) by (simp_all add: same_position_def)
  have tm2: "swap_to_move (m_to_move q) = m_to_move pos"
    using tm q(2) pf(8) by (simp add: swap_to_move_twice)
  have msq: "mset ?pcsq = (if m_captured m \<noteq> CHR ''.''
               then add_mset (m_captured m, m_to m) (mset (m_pieces q)) else mset (m_pieces q))"
    by (simp add: mset_insert_entry)
  from perform_special_InrD [OF pf(9)]
  consider (none) "m_special m = no_special" "m_pieces pos1 = ?pcs2"
      "m_board pos1 = basic_board (m_board pos) m"
    | (black_ep) "m_special m = CHR ''e''" "\<not> is_upper (m_piece m)"
      "(CHR ''P'', m_to m - 8) \<in> set ?pcs2" "0 \<le> m_to m - 8" "m_to m - 8 < 64"
      "m_pieces pos1 = erase_entry ?pcs2 (CHR ''P'', m_to m - 8)"
      "m_board pos1 = (basic_board (m_board pos) m)[nat (m_to m - 8) := CHR ''.'']"
    | (white_ep) "m_special m = CHR ''E''" "is_upper (m_piece m)"
      "(CHR ''p'', m_to m + 8) \<in> set ?pcs2" "0 \<le> m_to m + 8" "m_to m + 8 < 64"
      "m_pieces pos1 = erase_entry ?pcs2 (CHR ''p'', m_to m + 8)"
      "m_board pos1 = (basic_board (m_board pos) m)[nat (m_to m + 8) := CHR ''.'']"
    | (promotion) "m_special m \<noteq> no_special" "m_special m \<noteq> CHR ''e''" "m_special m \<noteq> CHR ''E''"
      "is_upper (m_piece m) = is_upper (m_special m)"
      "m_pieces pos1 = insert_entry (erase_entry ?pcs2 (m_piece m, m_to m)) (m_special m, m_to m)"
      "m_board pos1 = (basic_board (m_board pos) m)[nat (m_to m) := m_special m]"
    by blast
  then show ?thesis
  proof cases
    case none
    have arr: "m_board q ! nat (m_to m) = m_piece m"
      using none(3) q(1) pf len by (simp add: basic_board_def)
    have mq: "mset (m_pieces q) = add_mset (m_piece m, m_to m) M'"
      using q(3) none(2) M2 by simp
    then have inq: "(m_piece m, m_to m) \<in> set (m_pieces q)"
      by (metis mset_eq_setD union_single_eq_member set_mset_mset)
    then have inq': "(m_piece m, m_to m) \<in> set ?pcsq" by (simp add: insert_entry_def)
    have us: "undo_special (set_square ?pcsq (m_piece m, m_to m) (m_from m)) ?bq m (m_piece m)
        = Inr (set_square ?pcsq (m_piece m, m_to m) (m_from m), ?bq)"
      using none(1) by (simp add: undo_special_def)
    have b: "?bq = m_board pos"
      using q(1) none(3) f(3) cap by (simp add: basic_board_def board_restore(1))
    have ms: "mset (set_square ?pcsq (m_piece m, m_to m) (m_from m)) = mset (m_pieces pos)"
      using mset_set_square [OF inq', of "m_from m"] msq mq M by simp
    show ?thesis
      using undo_move_step [OF q(4) pf(4) pf(5) pf(2) pf(3), unfolded arr, OF inq us]
      by (simp add: same_position_def b ms tm2 lep)
  next
    case black_ep
    have arr: "m_board q ! nat (m_to m) = m_piece m"
      using black_ep(4,5,7) q(1) pf(2-5) len by (auto simp add: basic_board_def nth_upd_if)
    have "(CHR ''P'', m_to m - 8) \<in># add_mset (m_piece m, m_to m) M'"
      using black_ep(3) M2 by (metis set_mset_mset)
    then have epin: "(CHR ''P'', m_to m - 8) \<in># M'" by simp
    then obtain M'' where M'': "M' = add_mset (CHR ''P'', m_to m - 8) M''"
      by (metis mset_add)
    have "(CHR ''P'', m_to m - 8) \<in># mset (m_pieces pos)"
      unfolding M using epin by simp
    then have "(CHR ''P'', m_to m - 8) \<in> set (m_pieces pos)" by simp
    from agreesD(3) [OF ag this] have bep: "m_board pos ! nat (m_to m - 8) = CHR ''P''" .
    have mq: "mset (m_pieces q) = add_mset (m_piece m, m_to m) M''"
      using q(3) black_ep(6) M2 M'' by (simp add: mset_erase_entry)
    then have inq: "(m_piece m, m_to m) \<in> set (m_pieces q)"
      by (metis mset_eq_setD union_single_eq_member set_mset_mset)
    then have inq': "(m_piece m, m_to m) \<in> set ?pcsq" by (simp add: insert_entry_def)
    have us: "undo_special (set_square ?pcsq (m_piece m, m_to m) (m_from m)) ?bq m (m_piece m)
        = Inr (insert_entry (set_square ?pcsq (m_piece m, m_to m) (m_from m))
                 (CHR ''P'', m_to m - 8), ?bq[nat (m_to m - 8) := CHR ''P''])"
      using black_ep(1,2,4,5) by (simp add: undo_special_def no_special_def board_set_def)
    have b: "?bq[nat (m_to m - 8) := CHR ''P''] = m_board pos"
      using q(1) black_ep(7) f(3) cap bep by (simp add: basic_board_def board_restore(2))
    have ms: "mset (insert_entry (set_square ?pcsq (m_piece m, m_to m) (m_from m))
                 (CHR ''P'', m_to m - 8)) = mset (m_pieces pos)"
      using mset_set_square [OF inq', of "m_from m"] msq mq M M''
      by (simp add: mset_insert_entry)
    show ?thesis
      using undo_move_step [OF q(4) pf(4) pf(5) pf(2) pf(3), unfolded arr, OF inq us]
      by (simp add: same_position_def b ms tm2 lep)
  next
    case white_ep
    have arr: "m_board q ! nat (m_to m) = m_piece m"
      using white_ep(4,5,7) q(1) pf(2-5) len by (auto simp add: basic_board_def nth_upd_if)
    have "(CHR ''p'', m_to m + 8) \<in># add_mset (m_piece m, m_to m) M'"
      using white_ep(3) M2 by (metis set_mset_mset)
    then have epin: "(CHR ''p'', m_to m + 8) \<in># M'" by simp
    then obtain M'' where M'': "M' = add_mset (CHR ''p'', m_to m + 8) M''"
      by (metis mset_add)
    have "(CHR ''p'', m_to m + 8) \<in># mset (m_pieces pos)"
      unfolding M using epin by simp
    then have "(CHR ''p'', m_to m + 8) \<in> set (m_pieces pos)" by simp
    from agreesD(3) [OF ag this] have bep: "m_board pos ! nat (m_to m + 8) = CHR ''p''" .
    have mq: "mset (m_pieces q) = add_mset (m_piece m, m_to m) M''"
      using q(3) white_ep(6) M2 M'' by (simp add: mset_erase_entry)
    then have inq: "(m_piece m, m_to m) \<in> set (m_pieces q)"
      by (metis mset_eq_setD union_single_eq_member set_mset_mset)
    then have inq': "(m_piece m, m_to m) \<in> set ?pcsq" by (simp add: insert_entry_def)
    have us: "undo_special (set_square ?pcsq (m_piece m, m_to m) (m_from m)) ?bq m (m_piece m)
        = Inr (insert_entry (set_square ?pcsq (m_piece m, m_to m) (m_from m))
                 (CHR ''p'', m_to m + 8), ?bq[nat (m_to m + 8) := CHR ''p''])"
      using white_ep(1,2,4,5) by (simp add: undo_special_def no_special_def board_set_def)
    have b: "?bq[nat (m_to m + 8) := CHR ''p''] = m_board pos"
      using q(1) white_ep(7) f(3) cap bep by (simp add: basic_board_def board_restore(2))
    have ms: "mset (insert_entry (set_square ?pcsq (m_piece m, m_to m) (m_from m))
                 (CHR ''p'', m_to m + 8)) = mset (m_pieces pos)"
      using mset_set_square [OF inq', of "m_from m"] msq mq M M''
      by (simp add: mset_insert_entry)
    show ?thesis
      using undo_move_step [OF q(4) pf(4) pf(5) pf(2) pf(3), unfolded arr, OF inq us]
      by (simp add: same_position_def b ms tm2 lep)
  next
    case promotion
    have arr: "m_board q ! nat (m_to m) = m_special m"
      using promotion(6) q(1) pf len by (simp add: basic_board_def)
    have mq: "mset (m_pieces q) = add_mset (m_special m, m_to m) M'"
      using q(3) promotion(5) M2 by (simp add: mset_erase_entry mset_insert_entry)
    then have inq: "(m_special m, m_to m) \<in> set (m_pieces q)"
      by (metis mset_eq_setD union_single_eq_member set_mset_mset)
    then have inq': "(m_special m, m_to m) \<in> set ?pcsq" by (simp add: insert_entry_def)
    have us: "undo_special (set_square ?pcsq (m_special m, m_to m) (m_from m)) ?bq m (m_special m)
        = Inr (insert_entry (erase_entry (set_square ?pcsq (m_special m, m_to m) (m_from m))
                 (m_special m, m_from m)) (m_piece m, m_from m), ?bq[nat (m_from m) := m_piece m])"
      using promotion(1-4) pf(2,3) by (simp add: undo_special_def board_set_def)
    have b: "?bq[nat (m_from m) := m_piece m] = m_board pos"
      using q(1) promotion(6) f(3) cap
      by (auto simp add: basic_board_def list_eq_iff_nth_eq nth_upd_if)
    have ms: "mset (insert_entry (erase_entry (set_square ?pcsq (m_special m, m_to m) (m_from m))
                 (m_special m, m_from m)) (m_piece m, m_from m)) = mset (m_pieces pos)"
      using mset_set_square [OF inq', of "m_from m"] msq mq M
      by (simp add: mset_insert_entry mset_erase_entry)
    show ?thesis
      using undo_move_step [OF q(4) pf(4) pf(5) pf(2) pf(3), unfolded arr, OF inq us]
      by (simp add: same_position_def b ms tm2 lep)
  qed
qed

lemma agrees_erase: "agrees b pcs \<Longrightarrow> agrees b (erase_entry pcs e)"
  unfolding agrees_def erase_entry_def
  by (auto dest: notin_set_remove1 simp add: distinct_remove1)

lemma set_erase_entry: "distinct pcs \<Longrightarrow> set (erase_entry pcs e) = set pcs - {e}"
  by (simp add: erase_entry_def)

lemma agrees_relocate:
  assumes ag: "agrees b pcs" and pf: "(piece, from) \<in> set pcs" and to: "0 \<le> to" "to < 64"
    and noto: "\<And>p. (p, to) \<notin> set pcs"
  shows "agrees (b[nat from := CHR ''.'', nat to := piece]) (set_square pcs (piece, from) to)"
proof (rule agreesI)
  note f = agreesD [OF ag pf]
  have d: "distinct pcs" using agrees_distinct [OF ag] .
  have s: "set (set_square pcs (piece, from) to) = insert (piece, to) (set pcs - {(piece, from)})"
    using set_set_square [OF d, of "(piece, from)" to] pf by simp
  show "length (b[nat from := CHR ''.'', nat to := piece]) = 64" using agrees_length [OF ag] by simp
  show "distinct (set_square pcs (piece, from) to)"
    using d noto by (intro distinct_set_square) auto
  fix p s assume "(p, s) \<in> set (set_square pcs (piece, from) to)"
  then consider "(p, s) = (piece, to)" | "(p, s) \<in> set pcs" "(p, s) \<noteq> (piece, from)"
    by (auto simp add: s)
  then show "0 \<le> s \<and> s < 64 \<and> b[nat from := CHR ''.'', nat to := piece] ! nat s = p \<and> p \<noteq> CHR ''.''"
  proof cases
    case 1
    then show ?thesis using to f agrees_length [OF ag] by (auto simp add: nth_upd_if)
  next
    case 2
    note g = agreesD [OF ag 2(1)]
    have "s \<noteq> to" using 2(1) noto by auto
    moreover have "s \<noteq> from" using g f 2(2) by auto
    ultimately show ?thesis using g f to by (auto simp add: nth_upd_if)
  qed
qed

lemma agrees_clear:
  assumes ag: "agrees b pcs" and e: "(p, s) \<in> set pcs"
  shows "agrees (b[nat s := CHR ''.'']) (erase_entry pcs (p, s))"
proof (rule agreesI)
  have d: "distinct pcs" using agrees_distinct [OF ag] .
  show "length (b[nat s := CHR ''.'']) = 64" using agrees_length [OF ag] by simp
  show "distinct (erase_entry pcs (p, s))" using d by (simp add: erase_entry_def)
  fix p' s' assume "(p', s') \<in> set (erase_entry pcs (p, s))"
  then have in': "(p', s') \<in> set pcs" and ne: "(p', s') \<noteq> (p, s)"
    using d by (simp_all add: set_erase_entry)
  note g = agreesD [OF ag in'] and f = agreesD [OF ag e]
  have "s' \<noteq> s" using g f ne by auto
  then show "0 \<le> s' \<and> s' < 64 \<and> b[nat s := CHR ''.''] ! nat s' = p' \<and> p' \<noteq> CHR ''.''"
    using g f by (auto simp add: nth_upd_if)
qed

lemma agrees_replace:
  assumes ag: "agrees b pcs" and e: "(p, s) \<in> set pcs" and c: "c \<noteq> CHR ''.''"
  shows "agrees (b[nat s := c]) (insert_entry (erase_entry pcs (p, s)) (c, s))"
proof (rule agreesI)
  have d: "distinct pcs" using agrees_distinct [OF ag] .
  note f = agreesD [OF ag e]
  have nos: "(p', s) \<in> set pcs \<Longrightarrow> p' = p" for p'
    using agreesD(3) [OF ag, of p' s] f by simp
  show "length (b[nat s := c]) = 64" using agrees_length [OF ag] by simp
  show "distinct (insert_entry (erase_entry pcs (p, s)) (c, s))"
    using d nos by (auto simp add: insert_entry_def set_erase_entry erase_entry_def)
  fix p' s' assume "(p', s') \<in> set (insert_entry (erase_entry pcs (p, s)) (c, s))"
  then consider "(p', s') = (c, s)" | "(p', s') \<in> set pcs" "(p', s') \<noteq> (p, s)"
    using d by (auto simp add: insert_entry_def set_erase_entry)
  then show "0 \<le> s' \<and> s' < 64 \<and> b[nat s := c] ! nat s' = p' \<and> p' \<noteq> CHR ''.''"
  proof cases
    case 1
    then show ?thesis using f c agrees_length [OF ag] by (auto simp add: nth_upd_if)
  next
    case 2
    note g = agreesD [OF ag 2(1)]
    have "s' \<noteq> s" using 2 nos by auto
    then show ?thesis using g f by (auto simp add: nth_upd_if)
  qed
qed

lemma special_letters_not_dot: "c \<in> set special_letters \<Longrightarrow> c \<noteq> CHR ''.''"
  by (auto simp add: special_letters_def no_special_def)

lemma perform_move_agrees:
  assumes ag: "agrees (m_board pos) (m_pieces pos)"
    and fits: "move_fits pos m"
    and pm: "perform_move pos m = Inr pos1"
  shows "agrees (m_board pos1) (m_pieces pos1)"
proof -
  note pf = perform_move_InrD [OF pm]
  have cap: "m_captured m = m_board pos ! nat (m_to m)"
    and sp: "m_special m \<noteq> CHR ''.''"
    using fits by (simp_all add: move_fits_def special_letters_not_dot)
  let ?pcs0 = "if m_captured m \<noteq> CHR ''.''
               then erase_entry (m_pieces pos) (m_captured m, m_to m) else m_pieces pos"
  let ?pcs2 = "set_square ?pcs0 (m_piece m, m_from m) (m_to m)"
  have d: "distinct (m_pieces pos)" using agrees_distinct [OF ag] .
  have ag0: "agrees (m_board pos) ?pcs0" using ag by (simp add: agrees_erase)
  have s0: "set ?pcs0 = (if m_captured m \<noteq> CHR ''.'' then set (m_pieces pos) - {(m_captured m, m_to m)}
                         else set (m_pieces pos))"
    using d by (simp add: set_erase_entry)
  have pf0: "(m_piece m, m_from m) \<in> set ?pcs0" using pf(1) pf(6) by (auto simp add: s0)
  have noto: "(p, m_to m) \<notin> set ?pcs0" for p
  proof
    assume a: "(p, m_to m) \<in> set ?pcs0"
    then have "(p, m_to m) \<in> set (m_pieces pos)" by (auto simp add: s0 split: if_splits)
    from agreesD [OF ag this] cap have "p = m_captured m" "m_captured m \<noteq> CHR ''.''" by auto
    with a d show False by (simp add: set_erase_entry)
  qed
  have ag2: "agrees (basic_board (m_board pos) m) ?pcs2"
    unfolding basic_board_def by (rule agrees_relocate [OF ag0 pf0 pf(4) pf(5) noto])
  have arrived: "(m_piece m, m_to m) \<in> set ?pcs2"
    using set_set_square [OF agrees_distinct [OF ag0], of "(m_piece m, m_from m)" "m_to m"] pf0
    by simp
  from perform_special_InrD [OF pf(9)] show ?thesis
    using ag2 arrived sp
    by (elim disjE conjE) (simp_all add: agrees_clear agrees_replace)
qed

lemma swap_to_move_range: "swap_to_move c = CHR ''w'' \<or> swap_to_move c = CHR ''b''"
  by (simp add: swap_to_move_def)

lemma perform_move_consistent:
  assumes "consistent pos" and "move_fits pos m" and "perform_move pos m = Inr pos1"
  shows "consistent pos1"
  using assms perform_move_agrees [of pos m pos1] perform_move_InrD(8) [of pos m pos1]
  by (simp add: consistent_agrees swap_to_move_range)

lemma same_position_sym: "same_position p q \<Longrightarrow> same_position q p"
  by (simp add: same_position_def)

lemma same_position_refl: "same_position p p"
  by (simp add: same_position_def)

lemma same_position_trans: "same_position p q \<Longrightarrow> same_position q r \<Longrightarrow> same_position p r"
  by (simp add: same_position_def)

lemma same_position_consistent:
  assumes "same_position p q"
  shows "consistent p \<longleftrightarrow> consistent q"
proof -
  have "set (m_pieces p) = set (m_pieces q)" "distinct (m_pieces p) = distinct (m_pieces q)"
    using assms by (auto simp add: same_position_def dest: mset_eq_setD mset_eq_imp_distinct_iff)
  then show ?thesis using assms by (simp add: consistent_def same_position_def)
qed

lemma same_position_move_fits:
  assumes "same_position p q"
  shows "move_fits p m \<longleftrightarrow> move_fits q m"
proof -
  have "set (m_pieces p) = set (m_pieces q)"
    using assms by (auto simp add: same_position_def dest: mset_eq_setD)
  then show ?thesis using assms by (simp add: move_fits_def same_position_def)
qed

lemma valid_square: "are_valid_coords c r \<Longrightarrow> 0 \<le> c + 8 * r \<and> c + 8 * r < 64"
  by (auto simp add: are_valid_coords_def)

lemma pawn_arrivals_generated:
  assumes "m \<in> set (pawn_arrivals pos square sq piece (board_at pos sq) r)" and "0 \<le> sq" "sq < 64"
  shows "generated pos piece square m"
  using assms
  by (auto simp add: pawn_arrivals_def generated_def Move_def special_letters_def split: if_splits)

lemma pawn_diagonal_generated:
  assumes "m \<in> set (pawn_diagonal pos piece square dir c_dir)"
  shows "generated pos piece square m"
proof -
  let ?col = "square smod 8" and ?row = "square sdiv 8"
  from assms have v: "are_valid_coords (?col + c_dir) (?row + dir)"
    by (auto simp add: pawn_diagonal_def Let_def split: if_splits)
  note r = valid_square [OF v]
  from assms v consider
      "m \<in> set (pawn_arrivals pos square (?col + c_dir + 8 * (?row + dir)) piece
                  (board_at pos (?col + c_dir + 8 * (?row + dir))) (?row + dir))"
    | "m = Move square (?col + c_dir + 8 * (?row + dir)) piece
             (board_at pos (?col + c_dir + 8 * (?row + dir)))
             (if is_upper piece then CHR ''E'' else CHR ''e'') (m_en_passant pos)"
    by (auto simp add: pawn_diagonal_def Let_def split: if_splits)
  then show ?thesis
  proof cases
    case 1
    then show ?thesis using r by (intro pawn_arrivals_generated) auto
  next
    case 2
    then show ?thesis using r by (simp add: generated_def Move_def special_letters_def)
  qed
qed

lemma pawn_moves_generated:
  assumes "pawn_moves pos piece square = Inr ms" and "m \<in> set ms"
  shows "generated pos piece square m"
proof -
  let ?col = "square smod 8" and ?row = "square sdiv 8"
  let ?dir = "if is_upper piece then - 1 else (1::int)"
  from assms(1) have v: "are_valid_coords ?col (?row + ?dir)"
    by (auto simp add: pawn_moves_def Let_def get_square_def split: if_splits)
  note r = valid_square [OF v]
  from assms v consider
      "m \<in> set (pawn_diagonal pos piece square ?dir 1)"
    | "m \<in> set (pawn_diagonal pos piece square ?dir (- 1))"
    | "m \<in> set (pawn_arrivals pos square (?col + 8 * (?row + ?dir)) piece
                  (board_at pos (?col + 8 * (?row + ?dir))) (?row + ?dir))"
    | "m = Move square (?col + 8 * (?row + 2 * ?dir)) piece (CHR ''.'') no_special (m_en_passant pos)"
      "board_at pos (?col + 8 * (?row + 2 * ?dir)) = CHR ''.''"
      "(is_upper piece \<and> ?row = 6) \<or> (\<not> is_upper piece \<and> ?row = 1)"
    by (auto simp add: pawn_moves_def Let_def get_square_def split: if_splits)
  then show ?thesis
  proof cases
    case 1 then show ?thesis by (rule pawn_diagonal_generated)
  next
    case 2 then show ?thesis by (rule pawn_diagonal_generated)
  next
    case 3 then show ?thesis using r by (intro pawn_arrivals_generated) auto
  next
    case 4
    then show ?thesis using v
      by (auto simp add: generated_def Move_def special_letters_def are_valid_coords_def)
  qed
qed

lemma step_move_generated:
  assumes "m \<in> set (step_move pos piece square cds)"
  shows "generated pos piece square m"
  using assms
  by (auto simp add: step_move_def Let_def generated_def Move_def special_letters_def
      dest: valid_square split: if_splits)

lemma ray_moves_generated:
  "m \<in> set (ray_moves pos piece square cds cur) \<Longrightarrow> generated pos piece square m"
proof (induction pos piece square cds cur rule: ray_moves.induct)
  case (1 pos piece square cds cur)
  show ?case
  proof (cases "are_valid_coords (fst cur) (snd cur) \<and> cds \<noteq> (0, 0)")
    case False
    with "1.prems" show ?thesis by (simp add: ray_moves.simps [of pos piece square cds cur])
  next
    case True
    then have v: "are_valid_coords (fst cur) (snd cur)" by simp
    note r = valid_square [OF v]
    from "1.prems" True consider
        "m = Move square (fst cur + 8 * snd cur) piece (board_at pos (fst cur + 8 * snd cur))
               no_special (m_en_passant pos)"
      | "board_at pos (fst cur + 8 * snd cur) = CHR ''.''"
        "m \<in> set (ray_moves pos piece square cds (fst cur + fst cds, snd cur + snd cds))"
      by (auto simp add: ray_moves.simps [of pos piece square cds cur] Let_def split: if_splits)
    then show ?thesis
    proof cases
      case 1
      then show ?thesis using r by (simp add: generated_def Move_def special_letters_def)
    next
      case 2
      show ?thesis
        by (rule "1.IH" [OF True refl _ _ 2(2)]) (use 2(1) in simp_all)
    qed
  qed
qed

lemma find_pseudo_legal_moves_generated:
  assumes "find_pseudo_legal_moves pos piece square = Inr ms" and "m \<in> set ms"
  shows "generated pos piece square m"
  using assms
  by (auto simp add: find_pseudo_legal_moves_def slide_moves_def
      dest: pawn_moves_generated step_move_generated ray_moves_generated split: if_splits)

lemma collect_pseudo_legal_generated:
  "collect_pseudo_legal pos pcs = Inr ms \<Longrightarrow> m \<in> set ms \<Longrightarrow>
   \<exists>e \<in> set pcs. generated pos (fst e) (snd e) m"
proof (induction pcs arbitrary: ms)
  case Nil
  then show ?case by simp
next
  case (Cons p rest)
  show ?case
  proof (cases "is_upper (fst p) \<noteq> (m_to_move pos = CHR ''w'')")
    case True
    with Cons show ?thesis by auto
  next
    case False
    with Cons.prems obtain ms1 ms2 where
      "find_pseudo_legal_moves pos (fst p) (snd p) = Inr ms1"
      "collect_pseudo_legal pos rest = Inr ms2" "ms = ms1 @ ms2"
      by (auto split: sum.splits)
    with Cons.IH [of ms2] Cons.prems(2) show ?thesis
      by (auto dest: find_pseudo_legal_moves_generated)
  qed
qed

lemma pseudo_legal_moves_fit:
  assumes "pseudo_legal_moves pos = Inr ms" and "m \<in> set ms"
  shows "move_fits pos m"
proof -
  from collect_pseudo_legal_generated [OF assms [unfolded pseudo_legal_moves_def]]
  obtain e where "e \<in> set (m_pieces pos)" "generated pos (fst e) (snd e) m" by blast
  then show ?thesis by (auto simp add: generated_def move_fits_def board_at_def)
qed

lemma perform_special_same:
  assumes "mset pcs = mset pcs'" and "perform_special pcs b m = Inr (r, b')"
  shows "\<exists>r'. perform_special pcs' b m = Inr (r', b') \<and> mset r' = mset r"
proof -
  have s: "set pcs' = set pcs" using assms(1) by (metis mset_eq_setD)
  from perform_special_InrD [OF assms(2)] show ?thesis
    using assms(1) s
    by (elim disjE conjE)
       (simp_all add: perform_special_def has_entry_def board_set_def mset_erase_entry
          mset_insert_entry no_special_def)
qed

lemma perform_move_step:
  assumes "(m_piece m, m_from m) \<in> set (m_pieces pos)"
    and "0 \<le> m_from m" "m_from m < 64" "0 \<le> m_to m" "m_to m < 64"
    and "m_captured m \<noteq> CHR ''.'' \<longrightarrow> (m_captured m, m_to m) \<in> set (m_pieces pos)
           \<and> (m_captured m, m_to m) \<noteq> (m_piece m, m_from m)"
    and "perform_special
           (set_square (if m_captured m \<noteq> CHR ''.''
                        then erase_entry (m_pieces pos) (m_captured m, m_to m) else m_pieces pos)
              (m_piece m, m_from m) (m_to m))
           (basic_board (m_board pos) m) m = Inr (pcs3, b3)"
  shows "perform_move pos m = Inr \<lparr>m_board = b3, m_to_move = swap_to_move (m_to_move pos),
           m_en_passant = (if to_lower (m_piece m) = CHR ''p'' \<and> \<bar>m_from m - m_to m\<bar> = 16
                           then (m_to m + m_from m) sdiv 2 else - 1),
           m_pieces = pcs3, m_prev_moves = m_prev_moves pos @ [m]\<rparr>"
  using assms
  by (auto simp add: perform_move_def Let_def has_entry_def board_set_def basic_board_def)

lemma perform_move_en_passant:
  assumes "perform_move pos m = Inr pos1"
  shows "m_en_passant pos1 = (if to_lower (m_piece m) = CHR ''p'' \<and> \<bar>m_from m - m_to m\<bar> = 16
                           then (m_to m + m_from m) sdiv 2 else - 1)"
  using assms
  by (auto simp add: perform_move_def Let_def split: if_splits sum.splits)

lemma perform_move_same:
  assumes eq: "same_position q pos" and pm: "perform_move pos m = Inr pos1"
  shows "\<exists>q1. perform_move q m = Inr q1 \<and> same_position q1 pos1"
proof -
  note pf = perform_move_InrD [OF pm]
  have q: "m_board q = m_board pos" "m_to_move q = m_to_move pos"
    "m_en_passant q = m_en_passant pos" "mset (m_pieces q) = mset (m_pieces pos)"
    "m_prev_moves q = m_prev_moves pos"
    using eq by (simp_all add: same_position_def)
  have s: "set (m_pieces q) = set (m_pieces pos)" using q(4) by (metis mset_eq_setD)
  let ?pcs2 = "\<lambda>p. set_square (if m_captured m \<noteq> CHR ''.''
                        then erase_entry (m_pieces p) (m_captured m, m_to m) else m_pieces p)
              (m_piece m, m_from m) (m_to m)"
  have a: "mset (?pcs2 pos) = basic_pieces (mset (m_pieces pos)) m"
    by (rule mset_basic_pieces) (use pf in auto)
  have b: "mset (?pcs2 q) = basic_pieces (mset (m_pieces q)) m"
    by (rule mset_basic_pieces) (use pf s in auto)
  have "mset (?pcs2 pos) = mset (?pcs2 q)"
    by (simp only: a b q(4))
  from perform_special_same [OF this pf(9)] obtain r' where
    r': "perform_special (?pcs2 q) (basic_board (m_board pos) m) m = Inr (r', m_board pos1)"
      "mset r' = mset (m_pieces pos1)" by blast
  have "perform_move q m = Inr \<lparr>m_board = m_board pos1, m_to_move = swap_to_move (m_to_move q),
           m_en_passant = (if to_lower (m_piece m) = CHR ''p'' \<and> \<bar>m_from m - m_to m\<bar> = 16
                           then (m_to m + m_from m) sdiv 2 else - 1),
           m_pieces = r', m_prev_moves = m_prev_moves q @ [m]\<rparr>"
    by (rule perform_move_step) (use pf s r' q(1) in auto)
  then show ?thesis
    using r'(2) pf(7,8) q perform_move_en_passant [OF pm]
    by (simp add: same_position_def)
qed

text \<open>Attack detection reads the board only.\<close>

lemma ray_hit_board:
  "m_board p = m_board q \<Longrightarrow> ray_hit p w kind cds cur = ray_hit q w kind cds cur"
proof (induction p w kind cds cur rule: ray_hit.induct)
  case (1 pos by_white kind cds cur)
  show ?case
  proof (cases "are_valid_coords (fst cur) (snd cur) \<and> cds \<noteq> (0, 0)")
    case False
    have "ray_hit p' by_white kind cds cur = False" for p'
      by (subst ray_hit.simps) (rule if_not_P [OF False])
    then show ?thesis by simp
  next
    case True
    show ?thesis
    proof (cases "board_at pos (fst cur + 8 * snd cur) = CHR ''.''")
      case False
      with True "1.prems" show ?thesis
        by (simp add: ray_hit.simps [of _ by_white kind cds cur] board_at_def)
    next
      case empty: True
      from "1.IH" [OF True refl _ "1.prems"] empty
      have "ray_hit pos by_white kind cds (fst cur + fst cds, snd cur + snd cds)
          = ray_hit q by_white kind cds (fst cur + fst cds, snd cur + snd cds)" by simp
      with True empty "1.prems" show ?thesis
        by (simp add: ray_hit.simps [of _ by_white kind cds cur] board_at_def)
    qed
  qed
qed

lemma square_hit_board:
  assumes "m_board p = m_board q"
  shows "square_hit p sq w = square_hit q sq w"
proof -
  have "step_hit p = step_hit q"
    using assms by (intro ext) (simp add: step_hit_def board_at_def)
  moreover have "ray_hit p = ray_hit q"
    using assms by (intro ext) (rule ray_hit_board)
  ultimately show ?thesis by (simp add: square_hit_def)
qed

lemma make_undo:
  assumes "consistent Q" and "move_fits Q m" and "perform_move Q m = Inr Q1"
    and "same_position Q1' Q1"
  shows "\<exists>Q2. undo_move Q1' = Inr Q2 \<and> same_position Q2 Q"
  using assms undo_after_perform [of Q m Q1 Q1'] by (simp add: consistent_agrees)

lemma filter_legal_frame:
  "consistent Q \<Longrightarrow> \<forall>m \<in> set ms. move_fits Q m \<Longrightarrow> filter_legal Q king ms = Inr (legal, Q') \<Longrightarrow>
   same_position Q' Q \<and> set legal \<subseteq> set ms"
proof (induction ms arbitrary: Q legal)
  case Nil
  then show ?case by (simp add: same_position_refl)
next
  case (Cons m ms)
  from Cons.prems(3) obtain Q1 k Q2 legal' where
    s: "perform_move Q m = Inr Q1" "undo_move Q1 = Inr Q2"
       "filter_legal Q2 king ms = Inr (legal', Q')"
       "legal = (if \<not> square_hit Q1 (snd k) (\<not> is_upper (fst k)) then m # legal' else legal')"
    by (auto split: sum.splits option.splits)
  from make_undo [OF Cons.prems(1) _ s(1) same_position_refl] Cons.prems(2) s(2)
  have eq: "same_position Q2 Q" by auto
  then have "consistent Q2" "\<forall>m \<in> set ms. move_fits Q2 m"
    using Cons.prems(1,2) same_position_consistent same_position_move_fits by auto
  from Cons.IH [OF this s(3)] eq s(4) show ?case
    by (auto intro: same_position_trans)
qed

lemma get_possible_moves_frame:
  assumes "consistent P" and "get_possible_moves P = Inr (ms, P')"
  shows "same_position P' P" and "\<forall>m \<in> set ms. move_fits P m"
proof -
  from assms(2) obtain ps where ps: "pseudo_legal_moves P = Inr ps"
    "filter_legal P (king_letter P) ps = Inr (ms, P')"
    by (auto simp add: get_possible_moves_def split: sum.splits)
  have fits: "\<forall>m \<in> set ps. move_fits P m" using pseudo_legal_moves_fit [OF ps(1)] by blast
  from filter_legal_frame [OF assms(1) fits ps(2)] fits
  show "same_position P' P" and "\<forall>m \<in> set ms. move_fits P m" by auto
qed

lemma guess_moves_frame:
  "consistent Q \<Longrightarrow> \<forall>m \<in> set ms. move_fits Q m \<Longrightarrow> guess_moves H cache Q ms = Inr (gms, Q') \<Longrightarrow>
   same_position Q' Q \<and> snd ` set gms \<subseteq> set ms"
proof (induction ms arbitrary: Q gms)
  case Nil
  then show ?case by (simp add: same_position_refl)
next
  case (Cons m ms)
  from Cons.prems(3) obtain Q1 Q2 rest where
    s: "perform_move Q m = Inr Q1" "undo_move Q1 = Inr Q2"
       "guess_moves H cache Q2 ms = Inr (rest, Q')"
       "gms = (get_eval_guess (get_hash H Q1) cache, m) # rest"
    by (auto split: sum.splits)
  from make_undo [OF Cons.prems(1) _ s(1) same_position_refl] Cons.prems(2) s(2)
  have eq: "same_position Q2 Q" by auto
  then have "consistent Q2" "\<forall>m \<in> set ms. move_fits Q2 m"
    using Cons.prems(1,2) same_position_consistent same_position_move_fits by auto
  from Cons.IH [OF this s(3)] eq s(4) show ?case
    by (auto intro: same_position_trans)
qed

lemma search_moves_frame:
  assumes child: "\<And>p c a b r p' c'. consistent p \<Longrightarrow> child p c a b = Inr (r, p', c') \<Longrightarrow>
                    same_position p' p"
  shows "consistent Q \<Longrightarrow> \<forall>gm \<in> set gms. move_fits Q (snd gm) \<Longrightarrow>
         search_moves child side beta gms Q cache alfa eval = Inr (e, Q', cache') \<Longrightarrow>
         same_position Q' Q"
proof (induction gms arbitrary: Q cache alfa eval)
  case Nil
  then show ?case by (simp add: same_position_refl)
next
  case (Cons gm gms)
  from Cons.prems(3) obtain Q1 r Q2 cache2 Q3 where
    s: "perform_move Q (snd gm) = Inr Q1" "child Q1 cache (- beta) (- alfa) = Inr (r, Q2, cache2)"
       "undo_move Q2 = Inr Q3"
    by (auto simp add: Let_def split: sum.splits)
  have fit: "move_fits Q (snd gm)" using Cons.prems(2) by simp
  have "consistent Q1" using perform_move_consistent [OF Cons.prems(1) fit s(1)] .
  from child [OF this s(2)] have "same_position Q2 Q1" .
  from make_undo [OF Cons.prems(1) fit s(1) this] s(3)
  have eq: "same_position Q3 Q" by auto
  then have c3: "consistent Q3" "\<forall>gm \<in> set gms. move_fits Q3 (snd gm)"
    using Cons.prems(1,2) same_position_consistent same_position_move_fits by auto
  from Cons.prems(3) s consider "Q' = Q3"
    | alfa' eval' where "search_moves child side beta gms Q3 cache2 alfa' eval' = Inr (e, Q', cache')"
    by (auto simp add: Let_def split: if_splits)
  then show ?case
  proof cases
    case 1
    with eq show ?thesis by simp
  next
    case 2
    from Cons.IH [OF c3 2] eq show ?thesis by (rule same_position_trans)
  qed
qed

lemma evaluate_cases:
  assumes "evaluate H pos d cache alfa beta = Inr (v, pos', cache')"
  obtains (hit) "cache_hit cache (get_hash H pos) d = Some v" "pos' = pos" "cache' = cache"
  | (no_moves) king where "cache_hit cache (get_hash H pos) d = None"
      "get_possible_moves pos = Inr ([], pos')"
      "find_entry (m_pieces pos') (king_letter pos') = Some king"
      "v = (if square_hit pos' (snd king) (m_to_move pos' \<noteq> CHR ''w'')
            then - (if m_to_move pos' = CHR ''w'' then 1 else - 1) * MATE else 0)"
      "cache' = cache_insert cache (get_hash H pos) (INT_MAX, v)"
  | (bare_kings) ms where "cache_hit cache (get_hash H pos) d = None"
      "get_possible_moves pos = Inr (ms, pos')" "ms \<noteq> []" "length (m_pieces pos') \<le> 2"
      "v = 0" "cache' = cache_insert cache (get_hash H pos) (INT_MAX, 0)"
  | (leaf) ms where "cache_hit cache (get_hash H pos) d = None"
      "get_possible_moves pos = Inr (ms, pos')" "ms \<noteq> []" "length (m_pieces pos') > 2"
      "d \<le> 0" "material (m_pieces pos') = Inr v"
      "cache' = cache_store (cache (get_hash H pos) \<noteq> None) cache (get_hash H pos) (d, v)"
  | (cutoff) ms pos0 ordered pos1 x where "cache_hit cache (get_hash H pos) d = None"
      "get_possible_moves pos = Inr (ms, pos0)" "ms \<noteq> []" "length (m_pieces pos0) > 2"
      "d > 0" "guess_moves H cache pos0 ms = Inr (ordered, pos1)"
      "search_moves (\<lambda>p c a b. evaluate H p (d - 1) c a b)
         (if m_to_move pos0 = CHR ''w'' then 1 else - 1) beta
         (sort_moves ordered) pos1 cache alfa (- MATE) = Inr (Cutoff x, pos', cache')"
      "v = process_eval x * (if m_to_move pos0 = CHR ''w'' then 1 else - 1)"
  | (completed) ms pos0 ordered pos1 x cache2 where "cache_hit cache (get_hash H pos) d = None"
      "get_possible_moves pos = Inr (ms, pos0)" "ms \<noteq> []" "length (m_pieces pos0) > 2"
      "d > 0" "guess_moves H cache pos0 ms = Inr (ordered, pos1)"
      "search_moves (\<lambda>p c a b. evaluate H p (d - 1) c a b)
         (if m_to_move pos0 = CHR ''w'' then 1 else - 1) beta
         (sort_moves ordered) pos1 cache alfa (- MATE) = Inr (Completed x, pos', cache2)"
      "v = process_eval x * (if m_to_move pos0 = CHR ''w'' then 1 else - 1)"
      "cache' = cache_store (cache (get_hash H pos) \<noteq> None) cache2 (get_hash H pos)
                (if \<bar>x\<bar> > MATE_THRESHOLD then INT_MAX else d, v)"
proof -
  note e = assms [unfolded evaluate.simps [of H pos d cache alfa beta]]
  show thesis
  proof (cases "cache_hit cache (get_hash H pos) d")
    case (Some a)
    with e show ?thesis by (intro hit) (simp_all add: Let_def)
  next
    case None
    with e obtain ms pos0 where g: "get_possible_moves pos = Inr (ms, pos0)"
      by (auto simp add: Let_def split: sum.splits)
    note e' = e [unfolded Let_def None g, simplified]
    show ?thesis
    proof (cases "ms = []")
      case True
      with e' obtain king where "find_entry (m_pieces pos0) (king_letter pos0) = Some king"
        by (auto split: option.splits)
      with e' True None g show ?thesis
        by (intro no_moves [of king]) (auto split: if_splits)
    next
      case False
      show ?thesis
      proof (cases "length (m_pieces pos0) \<le> 2")
        case True
        with e' False None g show ?thesis by (intro bare_kings [of ms]) auto
      next
        case big: False
        show ?thesis
        proof (cases "d \<le> 0")
          case True
          with e' False big None g show ?thesis
            by (intro leaf [of ms]) (auto split: sum.splits)
        next
          case deep: False
          with e' False big obtain ordered pos1 r pos2 cache2 where
            s: "guess_moves H cache pos0 ms = Inr (ordered, pos1)"
              "search_moves (\<lambda>p c a b. evaluate H p (d - 1) c a b)
                 (if m_to_move pos0 = CHR ''w'' then 1 else - 1) beta
                 (sort_moves ordered) pos1 cache alfa (- MATE) = Inr (r, pos2, cache2)"
            by (auto split: sum.splits)
          show ?thesis
          proof (cases r)
            case (Cutoff x)
            with e' False big deep s None g show ?thesis
              by (intro cutoff [of ms pos0 ordered pos1 x]) auto
          next
            case (Completed x)
            with e' False big deep s None g show ?thesis
              by (intro completed [of ms pos0 ordered pos1 x cache2]) auto
          qed
        qed
      qed
    qed
  qed
qed

lemma set_sort_moves: "set (sort_moves ms) = set ms"
  by (simp add: sort_moves_def)

lemma evaluate_frame:
  "consistent pos \<Longrightarrow> evaluate H pos d cache alfa beta = Inr (v, pos', cache') \<Longrightarrow>
   same_position pos' pos"
proof (induction n \<equiv> "nat d" arbitrary: d pos cache alfa beta v pos' cache')
  case 0
  from "0.prems"(2) show ?case
  proof (cases rule: evaluate_cases)
    case hit
    then show ?thesis by (simp add: same_position_refl)
  next
    case (cutoff ms pos0 ordered pos1 x)
    with "0.hyps" show ?thesis by simp
  next
    case (completed ms pos0 ordered pos1 x cache2)
    with "0.hyps" show ?thesis by simp
  qed (use get_possible_moves_frame(1) [OF "0.prems"(1)] in blast)+
next
  case (Suc n)
  have child: "consistent p \<Longrightarrow> evaluate H p (d - 1) c a b = Inr (r, p', c') \<Longrightarrow>
     same_position p' p" for p c a b r p' c'
    using Suc.hyps(1) [of "d - 1" p c a b r p' c'] Suc.hyps(2) by simp
  have search: "same_position pos' pos"
    if g: "get_possible_moves pos = Inr (ms, pos0)"
      and o: "guess_moves H cache pos0 ms = Inr (ordered, pos1)"
      and s: "search_moves (\<lambda>p c a b. evaluate H p (d - 1) c a b) side beta
         (sort_moves ordered) pos1 cache alfa (- MATE) = Inr (e, pos', cache2)"
    for ms pos0 ordered pos1 side e cache2
  proof -
    note f = get_possible_moves_frame [OF Suc.prems(1) g]
    have c0: "consistent pos0" "\<forall>m \<in> set ms. move_fits pos0 m"
      using f Suc.prems(1) same_position_consistent same_position_move_fits by auto
    from guess_moves_frame [OF c0 o]
    have f1: "same_position pos1 pos0" "snd ` set ordered \<subseteq> set ms" by auto
    have c1: "consistent pos1" "\<forall>gm \<in> set (sort_moves ordered). move_fits pos1 (snd gm)"
      using f1 c0 same_position_consistent same_position_move_fits
      by (auto simp add: set_sort_moves)
    from search_moves_frame [of "\<lambda>p c a b. evaluate H p (d - 1) c a b", OF child c1 s]
    have "same_position pos' pos1" .
    with f1(1) f(1) show ?thesis by (blast intro: same_position_trans)
  qed
  from Suc.prems(2) show ?case
  proof (cases rule: evaluate_cases)
    case hit
    then show ?thesis by (simp add: same_position_refl)
  next
    case (cutoff ms pos0 ordered pos1 x)
    then show ?thesis using search by blast
  next
    case (completed ms pos0 ordered pos1 x cache2)
    then show ?thesis using search by blast
  qed (use get_possible_moves_frame(1) [OF Suc.prems(1)] in blast)+
qed

lemma iter_loop_frame:
  "consistent pos \<Longrightarrow> iter_loop H pos depth maxdepth cache = Inr (pos', cache') \<Longrightarrow>
   same_position pos' pos"
proof (induction H pos depth maxdepth cache rule: iter_loop.induct)
  case (1 H pos depth maxdepth cache)
  show ?case
  proof (cases "depth \<le> maxdepth")
    case False
    with "1.prems" show ?thesis
      by (simp add: iter_loop.simps [of H pos depth maxdepth cache] same_position_refl)
  next
    case True
    with "1.prems"(2) obtain r p1 c1 where
      e: "evaluate H pos depth cache (- MATE) MATE = Inr (r, p1, c1)"
      and l: "iter_loop H p1 (depth + 1) maxdepth c1 = Inr (pos', cache')"
      by (auto simp add: iter_loop.simps [of H pos depth maxdepth cache] split: sum.splits)
    from evaluate_frame [OF "1.prems"(1) e] have eq: "same_position p1 pos" .
    then have "consistent p1" using "1.prems"(1) same_position_consistent by blast
    from "1.IH" [OF True e refl refl this l] eq show ?thesis
      by (rule same_position_trans)
  qed
qed

lemma iter_evaluate_frame:
  assumes "consistent pos" and "iter_evaluate H pos maxdepth cache = Inr (v, pos', cache')"
  shows "same_position pos' pos"
proof -
  from assms(2) obtain p1 c1 where
    l: "iter_loop H pos 1 maxdepth cache = Inr (p1, c1)"
    and e: "evaluate H p1 maxdepth c1 (- MATE) MATE = Inr (v, pos', cache')"
    by (auto simp add: iter_evaluate_def split: sum.splits)
  from iter_loop_frame [OF assms(1) l] have eq: "same_position p1 pos" .
  then have "consistent p1" using assms(1) same_position_consistent by blast
  from evaluate_frame [OF this e] eq show ?thesis by (rule same_position_trans)
qed

text \<open>\<open>play_random_best\<close> returns with one move made, or with none when there is none.\<close>

lemma try_moves_plays:
  "consistent Q \<Longrightarrow> \<forall>m \<in> set ms. move_fits Q m \<Longrightarrow>
   try_moves H max_depth target ms Q cache = Inr (Q', cache') \<Longrightarrow>
   \<exists>m \<in> set ms. \<exists>Q1. perform_move Q m = Inr Q1 \<and> same_position Q' Q1"
proof (induction ms arbitrary: Q cache)
  case Nil
  then show ?case by simp
next
  case (Cons m ms)
  from Cons.prems(3) obtain Q1 r Q2 cache2 where
    s: "perform_move Q m = Inr Q1" "iter_evaluate H Q1 (max_depth - 1) cache = Inr (r, Q2, cache2)"
    by (auto split: sum.splits)
  have fit: "move_fits Q m" using Cons.prems(2) by simp
  have "consistent Q1" using perform_move_consistent [OF Cons.prems(1) fit s(1)] .
  from iter_evaluate_frame [OF this s(2)] have eq1: "same_position Q2 Q1" .
  show ?case
  proof (cases "process_eval r = target")
    case True
    with Cons.prems(3) s have "Q' = Q2" by simp
    with eq1 s(1) show ?thesis by auto
  next
    case False
    with Cons.prems(3) s obtain Q3 where
      u: "undo_move Q2 = Inr Q3" "try_moves H max_depth target ms Q3 cache2 = Inr (Q', cache')"
      by (auto split: sum.splits)
    from make_undo [OF Cons.prems(1) fit s(1) eq1] u(1) have eq: "same_position Q3 Q" by auto
    then have c3: "consistent Q3" "\<forall>m \<in> set ms. move_fits Q3 m"
      using Cons.prems(1,2) same_position_consistent same_position_move_fits by auto
    from Cons.IH [OF c3 u(2)] obtain m' Q1' where
      m': "m' \<in> set ms" "perform_move Q3 m' = Inr Q1'" "same_position Q' Q1'" by blast
    from perform_move_same [OF same_position_sym [OF eq] m'(2)] obtain Q1'' where
      q: "perform_move Q m' = Inr Q1''" "same_position Q1'' Q1'" by blast
    have "same_position Q' Q1''"
      using same_position_trans [OF m'(3) same_position_sym [OF q(2)]] .
    with m'(1) q(1) show ?thesis by auto
  qed
qed

lemma play_random_best_plays:
  assumes c: "consistent pos" and sh: "\<And>xs. set (shuffle xs) \<subseteq> set xs"
    and p: "play_random_best H shuffle pos max_depth cache = Inr (pos', cache')"
    and g: "get_possible_moves pos = Inr (ms, pos0)"
  shows "(shuffle ms = [] \<and> same_position pos' pos \<and> cache' = cache)
       \<or> (shuffle ms \<noteq> [] \<and> (\<exists>m \<in> set ms. \<exists>pos1. perform_move pos m = Inr pos1
             \<and> same_position pos' pos1))"
proof (cases "shuffle ms = []")
  case True
  with p g get_possible_moves_frame(1) [OF c g] show ?thesis
    by (simp add: play_random_best_def)
next
  case False
  note f = get_possible_moves_frame [OF c g]
  from False p g obtain target p1 c1 where
    i: "iter_evaluate H pos0 max_depth (cache(get_hash H pos0 := None)) = Inr (target, p1, c1)"
    and t: "try_moves H max_depth target (shuffle ms) p1 c1 = Inr (pos', cache')"
    by (auto simp add: play_random_best_def Let_def split: sum.splits)
  have c0: "consistent pos0" using f(1) c same_position_consistent by blast
  from iter_evaluate_frame [OF c0 i] f(1) have eq: "same_position p1 pos"
    by (rule same_position_trans)
  then have c1: "consistent p1" "\<forall>m \<in> set (shuffle ms). move_fits p1 m"
    using c f(2) sh [of ms] same_position_consistent same_position_move_fits by auto
  from try_moves_plays [OF c1 t] obtain m Q1 where
    m: "m \<in> set (shuffle ms)" "perform_move p1 m = Inr Q1" "same_position pos' Q1" by blast
  from perform_move_same [OF same_position_sym [OF eq] m(2)] obtain Q1' where
    q: "perform_move pos m = Inr Q1'" "same_position Q1' Q1" by blast
  have "same_position pos' Q1'"
    using same_position_trans [OF m(3) same_position_sym [OF q(2)]] .
  with m(1) q(1) sh [of ms] False show ?thesis by auto
qed

lemma perform_special_entries:
  assumes "perform_special pcs b m = Inr (pcs', b')"
  shows "set pcs' \<subseteq> insert (m_special m, m_to m) (set pcs)"
  using perform_special_InrD [OF assms]
  by (auto simp add: erase_entry_def insert_entry_def dest: notin_set_remove1)

lemma perform_move_entries:
  assumes ag: "agrees (m_board pos) (m_pieces pos)" and pm: "perform_move pos m = Inr pos1"
  shows "set (m_pieces pos1)
       \<subseteq> {(m_piece m, m_to m), (m_special m, m_to m)}
         \<union> (set (m_pieces pos) - {(m_piece m, m_from m)})"
proof -
  note pf = perform_move_InrD [OF pm]
  let ?pcs0 = "if m_captured m \<noteq> CHR ''.''
               then erase_entry (m_pieces pos) (m_captured m, m_to m) else m_pieces pos"
  have d0: "distinct ?pcs0" using agrees_distinct [OF ag] by (simp add: erase_entry_def)
  have s0: "set ?pcs0 \<subseteq> set (m_pieces pos)"
    using set_remove1_subset [of "(m_captured m, m_to m)" "m_pieces pos"]
    by (simp add: erase_entry_def)
  have "set (set_square ?pcs0 (m_piece m, m_from m) (m_to m))
      \<subseteq> insert (m_piece m, m_to m) (set ?pcs0 - {(m_piece m, m_from m)})"
    using set_set_square [OF d0, of "(m_piece m, m_from m)" "m_to m"]
    by (cases "(m_piece m, m_from m) \<in> set ?pcs0") auto
  with s0 perform_special_entries [OF pf(9)] show ?thesis by blast
qed

lemma king_letter_cases: "king_letter pos = CHR ''K'' \<or> king_letter pos = CHR ''k''"
  by (simp add: king_letter_def)

lemma king_not_special: "c \<in> set special_letters \<Longrightarrow> c \<noteq> CHR ''K'' \<and> c \<noteq> CHR ''k''"
  by (auto simp add: special_letters_def no_special_def)

lemma perform_move_single_king:
  assumes ag: "agrees (m_board pos) (m_pieces pos)" and fits: "move_fits pos m"
    and sk: "single_king pos" and pm: "perform_move pos m = Inr pos1"
    and a: "(king_letter pos, s) \<in> set (m_pieces pos1)"
    and b: "(king_letter pos, s') \<in> set (m_pieces pos1)"
  shows "s = s'"
proof -
  note sub = perform_move_entries [OF ag pm]
  have sp: "m_special m \<noteq> king_letter pos"
    using fits king_not_special [of "m_special m"] king_letter_cases [of pos]
    by (auto simp add: move_fits_def)
  have pf: "(m_piece m, m_from m) \<in> set (m_pieces pos)"
    using perform_move_InrD(1) [OF pm] .
  have old: "x = m_from m"
    if "(king_letter pos, x) \<in> set (m_pieces pos)" "king_letter pos = m_piece m" for x
    using that pf sk by (auto simp add: single_king_def)
  have split: "(king_letter pos = m_piece m \<and> x = m_to m)
      \<or> ((king_letter pos, x) \<in> set (m_pieces pos)
          \<and> (king_letter pos, x) \<noteq> (m_piece m, m_from m))"
    if "(king_letter pos, x) \<in> set (m_pieces pos1)" for x
  proof -
    from that sub have "(king_letter pos, x) = (m_piece m, m_to m)
        \<or> (king_letter pos, x) = (m_special m, m_to m)
        \<or> ((king_letter pos, x) \<in> set (m_pieces pos)
            \<and> (king_letter pos, x) \<noteq> (m_piece m, m_from m))" by blast
    with sp show ?thesis by auto
  qed
  from split [OF a] consider (moved) "king_letter pos = m_piece m" "s = m_to m"
    | (kept) "(king_letter pos, s) \<in> set (m_pieces pos)" "(king_letter pos, s) \<noteq> (m_piece m, m_from m)"
    by blast
  then show ?thesis
  proof cases
    case moved
    from split [OF b] consider "s' = m_to m"
      | "(king_letter pos, s') \<in> set (m_pieces pos)" "(king_letter pos, s') \<noteq> (m_piece m, m_from m)"
      by blast
    then show ?thesis using moved old by cases auto
  next
    case kept
    from split [OF b] consider "king_letter pos = m_piece m" "s' = m_to m"
      | "(king_letter pos, s') \<in> set (m_pieces pos)"
      by blast
    then show ?thesis using kept old sk by cases (auto simp add: single_king_def)
  qed
qed

lemma find_entry_same:
  assumes "mset xs = mset ys"
    and "\<And>s s'. (k, s) \<in> set xs \<Longrightarrow> (k, s') \<in> set xs \<Longrightarrow> s = s'"
  shows "find_entry xs k = find_entry ys k"
proof -
  have s: "set ys = set xs" using assms(1) by (metis mset_eq_setD)
  show ?thesis
  proof (cases "find_entry xs k")
    case None
    then have "\<forall>e \<in> set xs. fst e \<noteq> k" by (fastforce simp add: find_entry_def find_None_iff)
    with s have "find_entry ys k = None" by (fastforce simp add: find_entry_def find_None_iff)
    with None show ?thesis by simp
  next
    case (Some e)
    then have e: "e \<in> set xs" "fst e = k"
      by (auto simp add: find_entry_def find_Some_iff)
    have "find_entry ys k \<noteq> None"
    proof
      assume "find_entry ys k = None"
      then have "\<not> (\<exists>x. x \<in> set ys \<and> fst x = k)"
        unfolding find_entry_def find_None_iff .
      with e s show False by blast
    qed
    then obtain e' where e': "find_entry ys k = Some e'" by blast
    then have "e' \<in> set ys" "fst e' = k"
      by (auto simp add: find_entry_def find_Some_iff)
    with s e assms(2) [of "snd e" "snd e'"] have "e' = e"
      by (cases e, cases e') auto
    with Some e' show ?thesis by simp
  qed
qed

lemma same_position_single_king:
  assumes "same_position p q"
  shows "single_king p \<longleftrightarrow> single_king q"
proof -
  have "set (m_pieces p) = set (m_pieces q)"
    using assms by (auto simp add: same_position_def dest: mset_eq_setD)
  then show ?thesis using assms by (simp add: single_king_def same_position_def king_letter_def)
qed

lemma filter_legal_filter:
  assumes c: "consistent P" and sk: "single_king P"
  shows "\<forall>m \<in> set ms. move_fits P m \<Longrightarrow> same_position Q P \<Longrightarrow>
         filter_legal Q (king_letter P) ms = Inr (legal, Q') \<Longrightarrow>
         legal = filter (king_safe_after P) ms"
proof (induction ms arbitrary: Q legal)
  case Nil
  then show ?case by simp
next
  case (Cons m ms)
  from Cons.prems(3) obtain Q1 k Q2 legal' where
    s: "perform_move Q m = Inr Q1" "find_entry (m_pieces Q1) (king_letter P) = Some k"
       "undo_move Q1 = Inr Q2" "filter_legal Q2 (king_letter P) ms = Inr (legal', Q')"
       "legal = (if \<not> square_hit Q1 (snd k) (\<not> is_upper (fst k)) then m # legal' else legal')"
    by (auto split: sum.splits option.splits)
  have fit: "move_fits P m" using Cons.prems(1) by simp
  have cQ: "consistent Q" "move_fits Q m"
    using c fit Cons.prems(2) same_position_consistent same_position_move_fits by blast+
  from perform_move_same [OF same_position_sym [OF Cons.prems(2)] s(1)] obtain P1 where
    P1: "perform_move P m = Inr P1" "same_position P1 Q1" by blast
  have ag: "agrees (m_board P) (m_pieces P)" using c by (simp add: consistent_agrees)
  have "find_entry (m_pieces P1) (king_letter P) = find_entry (m_pieces Q1) (king_letter P)"
    by (rule find_entry_same)
       (use P1(2) perform_move_single_king [OF ag fit sk P1(1)] in \<open>auto simp add: same_position_def\<close>)
  moreover have "square_hit P1 sq w = square_hit Q1 sq w" for sq w
    using P1(2) by (intro square_hit_board) (simp add: same_position_def)
  ultimately have safe: "king_safe_after P m \<longleftrightarrow> \<not> square_hit Q1 (snd k) (\<not> is_upper (fst k))"
    using P1(1) s(2) by (simp add: king_safe_after_def)
  from make_undo [OF cQ s(1) same_position_refl] s(3) have "same_position Q2 Q" by auto
  with Cons.prems(2) have "same_position Q2 P" by (blast intro: same_position_trans)
  from Cons.IH [OF _ this s(4)] Cons.prems(1) have "legal' = filter (king_safe_after P) ms"
    by simp
  with s(5) safe show ?case by simp
qed

lemma get_possible_moves_filter:
  assumes "consistent P" and "single_king P" and "get_possible_moves P = Inr (ms, P')"
    and "pseudo_legal_moves P = Inr ps"
  shows "ms = filter (king_safe_after P) ps"
proof -
  from assms(3,4) have f: "filter_legal P (king_letter P) ps = Inr (ms, P')"
    by (simp add: get_possible_moves_def)
  have fits: "\<forall>m \<in> set ps. move_fits P m" using pseudo_legal_moves_fit [OF assms(4)] by blast
  from filter_legal_filter [OF assms(1,2) fits same_position_refl f] show ?thesis .
qed

lemma filter_legal_performs:
  "consistent Q \<Longrightarrow> \<forall>m \<in> set ms. move_fits Q m \<Longrightarrow> filter_legal Q king ms = Inr (legal, Q') \<Longrightarrow>
   m \<in> set legal \<Longrightarrow> \<exists>Q1. perform_move Q m = Inr Q1"
proof (induction ms arbitrary: Q legal)
  case Nil
  then show ?case by simp
next
  case (Cons x ms)
  from Cons.prems(3) obtain Q1 k Q2 legal' where
    s: "perform_move Q x = Inr Q1" "undo_move Q1 = Inr Q2"
       "filter_legal Q2 king ms = Inr (legal', Q')"
       "legal = (if \<not> square_hit Q1 (snd k) (\<not> is_upper (fst k)) then x # legal' else legal')"
    by (auto split: sum.splits option.splits)
  show ?case
  proof (cases "m = x")
    case True
    with s(1) show ?thesis by blast
  next
    case False
    with Cons.prems(4) s(4) have in': "m \<in> set legal'" by (auto split: if_splits)
    from make_undo [OF Cons.prems(1) _ s(1) same_position_refl] Cons.prems(2) s(2)
    have eq: "same_position Q2 Q" by auto
    then have "consistent Q2" "\<forall>m \<in> set ms. move_fits Q2 m"
      using Cons.prems(1,2) same_position_consistent same_position_move_fits by auto
    from Cons.IH [OF this s(3) in'] obtain Q1' where "perform_move Q2 m = Inr Q1'" by blast
    from perform_move_same [OF same_position_sym [OF eq] this] show ?thesis by blast
  qed
qed

lemma get_possible_moves_performs:
  assumes "consistent P" and "get_possible_moves P = Inr (ms, P')" and "m \<in> set ms"
  shows "\<exists>P1. perform_move P m = Inr P1"
proof -
  from assms(2) obtain ps where ps: "pseudo_legal_moves P = Inr ps"
    "filter_legal P (king_letter P) ps = Inr (ms, P')"
    by (auto simp add: get_possible_moves_def split: sum.splits)
  have fits: "\<forall>m \<in> set ps. move_fits P m" using pseudo_legal_moves_fit [OF ps(1)] by blast
  from filter_legal_performs [OF assms(1) fits ps(2) assms(3)] show ?thesis .
qed

lemma get_hash_same: "same_position p q \<Longrightarrow> get_hash H p = get_hash H q"
  by (simp add: same_position_def get_hash_def)

section \<open>Undo symmetry\<close>

text \<open>
  Claim C2.  For a position \<open>P\<close> in which board and piece list agree and \<open>to_move\<close> is
  \<open>w\<close> or \<open>b\<close>, and a move \<open>m\<close> returned by \<open>get_possible_moves\<close>: \<open>perform_move\<close> succeeds,
  the following \<open>undo_move\<close> succeeds, and the result equals \<open>P\<close> in board, piece multiset,
  side to move, en-passant square, move history and hash.
\<close>

theorem undo_symmetry:
  assumes "consistent P" and "get_possible_moves P = Inr (ms, P')" and "m \<in> set ms"
  shows "\<exists>P1 P2. perform_move P m = Inr P1 \<and> undo_move P1 = Inr P2
           \<and> m_board P2 = m_board P \<and> mset (m_pieces P2) = mset (m_pieces P)
           \<and> m_to_move P2 = m_to_move P \<and> m_en_passant P2 = m_en_passant P
           \<and> m_prev_moves P2 = m_prev_moves P \<and> get_hash H P2 = get_hash H P"
proof -
  from get_possible_moves_performs [OF assms] obtain P1 where
    p: "perform_move P m = Inr P1" by blast
  have fit: "move_fits P m" using get_possible_moves_frame(2) [OF assms(1,2)] assms(3) by blast
  from make_undo [OF assms(1) fit p same_position_refl] obtain P2 where
    u: "undo_move P1 = Inr P2" "same_position P2 P" by blast
  with p get_hash_same [OF u(2), of H] show ?thesis
    by (auto simp add: same_position_def)
qed

lemma ep_position_consistent: "consistent ep_position"
  by (simp add: consistent_def ep_position_def)

lemma ep_position_moves: "get_possible_moves ep_position = Inr (ep_moves, ep_generated)"
  by code_simp

theorem undo_symmetry_witness:
  "consistent ep_position
   \<and> get_possible_moves ep_position = Inr (ep_moves, ep_generated)
   \<and> Move 28 19 (CHR ''P'') (CHR ''.'') (CHR ''E'') 19 \<in> set ep_moves
   \<and> (\<exists>P1 P2. perform_move ep_position (Move 28 19 (CHR ''P'') (CHR ''.'') (CHR ''E'') 19) = Inr P1
         \<and> undo_move P1 = Inr P2
         \<and> m_board P2 = m_board ep_position \<and> mset (m_pieces P2) = mset (m_pieces ep_position)
         \<and> m_to_move P2 = m_to_move ep_position \<and> m_en_passant P2 = m_en_passant ep_position
         \<and> m_prev_moves P2 = m_prev_moves ep_position
         \<and> get_hash example_hash P2 = get_hash example_hash ep_position)"
proof -
  have m: "Move 28 19 (CHR ''P'') (CHR ''.'') (CHR ''E'') 19 \<in> set ep_moves"
    by (simp add: ep_moves_def)
  from undo_symmetry [OF ep_position_consistent ep_position_moves m, of example_hash]
    ep_position_consistent ep_position_moves m
  show ?thesis by blast
qed

section \<open>The legal-move filter\<close>

text \<open>
  Claim C3.  In a consistent position with a single king of the side to move, a
  pseudo-legal move \<open>m\<close> is among the moves returned by \<open>get_possible_moves\<close> if and only if,
  after \<open>perform_move\<close> of \<open>m\<close>, \<open>square_hit\<close> on the square of the mover's king, asked for the
  opponent's colour, is false.
\<close>

theorem legal_iff_king_safe:
  assumes "consistent P" and "single_king P" and "get_possible_moves P = Inr (ms, P')"
    and "pseudo_legal_moves P = Inr ps"
  shows "m \<in> set ms \<longleftrightarrow> m \<in> set ps \<and> king_safe_after P m"
  using get_possible_moves_filter [OF assms] by simp

lemma corner_position_consistent: "consistent corner_position"
  by (simp add: consistent_def corner_position_def)

lemma corner_position_single_king: "single_king corner_position"
  by (simp add: single_king_def corner_position_def king_letter_def)

lemma corner_position_moves:
  "get_possible_moves corner_position
     = Inr ([Move 56 57 (CHR ''K'') (CHR ''.'') no_special (- 1)], corner_position)"
  by code_simp

lemma corner_position_pseudo:
  "pseudo_legal_moves corner_position
     = Inr [Move 56 49 (CHR ''K'') (CHR ''.'') no_special (- 1),
            Move 56 57 (CHR ''K'') (CHR ''.'') no_special (- 1)]"
  by code_simp

theorem legal_iff_king_safe_witness:
  "consistent corner_position \<and> single_king corner_position
   \<and> king_safe_after corner_position (Move 56 57 (CHR ''K'') (CHR ''.'') no_special (- 1))
   \<and> \<not> king_safe_after corner_position (Move 56 49 (CHR ''K'') (CHR ''.'') no_special (- 1))"
  using
    legal_iff_king_safe [OF corner_position_consistent corner_position_single_king
      corner_position_moves corner_position_pseudo,
      of "Move 56 57 (CHR ''K'') (CHR ''.'') no_special (- 1)"]
    legal_iff_king_safe [OF corner_position_consistent corner_position_single_king
      corner_position_moves corner_position_pseudo,
      of "Move 56 49 (CHR ''K'') (CHR ''.'') no_special (- 1)"]
    corner_position_consistent corner_position_single_king
  by (simp add: Move_def no_special_def)

section \<open>The position after a search\<close>

text \<open>
  Claim C1, as amended.  For a consistent position \<open>P\<close>: when \<open>evaluate\<close> returns, on any
  of its exit paths, the position equals \<open>P\<close> in board, side to move, en-passant square and
  history, and its piece list holds the same entries.  When \<open>play_random_best\<close> returns, the
  position equals \<open>P\<close> in that sense only if there was no legal move; otherwise exactly one
  legal move of \<open>P\<close> has been made and is left on the board.
\<close>

theorem evaluate_restores_position:
  assumes "consistent P" and "\<And>xs. set (shuffle xs) \<subseteq> set xs"
  shows "(evaluate H P d cache alfa beta = Inr (v, P', cache') \<longrightarrow> same_position P' P)
       \<and> (play_random_best H shuffle P d cache = Inr (P'', cache'') \<longrightarrow>
            (\<exists>ms P0. get_possible_moves P = Inr (ms, P0)
               \<and> (if shuffle ms = [] then same_position P'' P
                   else \<exists>m \<in> set ms. \<exists>P1. perform_move P m = Inr P1 \<and> same_position P'' P1)))"
proof (intro conjI impI)
  assume "evaluate H P d cache alfa beta = Inr (v, P', cache')"
  then show "same_position P' P" by (rule evaluate_frame [OF assms(1)])
next
  assume p: "play_random_best H shuffle P d cache = Inr (P'', cache'')"
  then obtain ms P0 where g: "get_possible_moves P = Inr (ms, P0)"
    by (auto simp add: play_random_best_def split: sum.splits)
  from play_random_best_plays [OF assms(1) assms(2) p g] g
  show "\<exists>ms P0. get_possible_moves P = Inr (ms, P0)
               \<and> (if shuffle ms = [] then same_position P'' P
                   else \<exists>m \<in> set ms. \<exists>P1. perform_move P m = Inr P1 \<and> same_position P'' P1)"
    by auto
qed

lemma corner_position_evaluate:
  "map_sum id fst (evaluate example_hash corner_position 2 Map.empty (- MATE) MATE) = Inr 1"
  by code_simp

lemma corner_position_play:
  "map_sum id fst (play_random_best example_hash no_shuffle corner_position 2 Map.empty)
     = Inr corner_after"
  by code_simp

theorem evaluate_restores_position_witness:
  "consistent corner_position
   \<and> map_sum id fst (evaluate example_hash corner_position 2 Map.empty (- MATE) MATE) = Inr 1
   \<and> same_position
       (fst (snd (projr (evaluate example_hash corner_position 2 Map.empty (- MATE) MATE))))
       corner_position
   \<and> (\<exists>m P1. perform_move corner_position m = Inr P1 \<and> same_position corner_after P1)"
proof -
  obtain v P' c' where
    e: "evaluate example_hash corner_position 2 Map.empty (- MATE) MATE = Inr (v, P', c')"
    using corner_position_evaluate
    by (cases "evaluate example_hash corner_position 2 Map.empty (- MATE) MATE") auto
  obtain c'' where
    p: "play_random_best example_hash no_shuffle corner_position 2 Map.empty
          = Inr (corner_after, c'')"
    using corner_position_play
    by (cases "play_random_best example_hash no_shuffle corner_position 2 Map.empty") auto
  have sh: "\<And>xs. set (no_shuffle xs) \<subseteq> set xs" by (simp add: no_shuffle_def)
  have ne: "no_shuffle [Move 56 57 (CHR ''K'') (CHR ''.'') no_special (- 1)] \<noteq> []"
    by (simp add: no_shuffle_def)
  from evaluate_restores_position [OF corner_position_consistent sh,
      of example_hash 2 Map.empty "- MATE" MATE v P' c' corner_after c'']
    e p corner_position_moves ne
  have "same_position P' corner_position"
    and "\<exists>m P1. perform_move corner_position m = Inr P1 \<and> same_position corner_after P1"
    by auto
  with e corner_position_consistent corner_position_evaluate show ?thesis by simp
qed

text \<open>
  \<open>play_random_best\<close> does not give the position back: from the position with the white
  king on a1, a white pawn on a2 and the black king on a3, it returns with the king on b1.
\<close>

theorem play_random_best_moves_counterexample:
  "map_sum id fst (play_random_best example_hash no_shuffle corner_position 2 Map.empty)
     = Inr corner_after
   \<and> m_board corner_after \<noteq> m_board corner_position"
  using corner_position_play by (simp add: corner_after_def corner_position_def)

section \<open>Positions without a legal move\<close>

lemma cache_insert_absent: "cache hash = None \<Longrightarrow> cache_insert cache hash v = cache(hash \<mapsto> v)"
  by (simp add: cache_insert_def)

lemma cache_hit_absent: "cache hash = None \<Longrightarrow> cache_hit cache hash d = None"
  by (simp add: cache_hit_def)

text \<open>
  Claim C4, as amended.  In a consistent position with a single king of the side to move,
  no legal move, and no entry for the position's hash in the cache, \<open>evaluate\<close> returns
  \<open>- side * MATE\<close> when the mover's king is attacked and \<open>0\<close> otherwise, and stores that score
  under the hash with depth \<open>INT_MAX\<close>, which answers a later lookup at any depth.
\<close>

theorem evaluate_without_moves:
  assumes "consistent P" and "single_king P"
    and "get_possible_moves P = Inr ([], P0)"
    and "cache (get_hash H P) = None"
    and "find_entry (m_pieces P) (king_letter P) = Some king"
    and "v = (if square_hit P (snd king) (m_to_move P \<noteq> CHR ''w'')
              then - (if m_to_move P = CHR ''w'' then 1 else - 1) * MATE else 0)"
  shows "evaluate H P d cache alfa beta = Inr (v, P0, cache(get_hash H P \<mapsto> (INT_MAX, v)))
       \<and> (\<forall>d'. d' \<le> INT_MAX \<longrightarrow>
             cache_hit (cache(get_hash H P \<mapsto> (INT_MAX, v))) (get_hash H P) d' = Some v)"
proof -
  have eq: "same_position P0 P" using get_possible_moves_frame(1) [OF assms(1,3)] .
  then have f: "m_board P0 = m_board P" "m_to_move P0 = m_to_move P"
    "mset (m_pieces P0) = mset (m_pieces P)" "king_letter P0 = king_letter P"
    by (simp_all add: same_position_def king_letter_def)
  have "find_entry (m_pieces P) (king_letter P) = find_entry (m_pieces P0) (king_letter P)"
    by (rule find_entry_same) (use f(3) assms(2) in \<open>auto simp add: single_king_def\<close>)
  with assms(5) f(4) have k: "find_entry (m_pieces P0) (king_letter P0) = Some king" by simp
  have h: "square_hit P0 sq w = square_hit P sq w" for sq w
    using f(1) by (rule square_hit_board)
  show ?thesis
    using assms(3,4,6) k h f(2)
    by (simp add: evaluate.simps [of H P d cache alfa beta] cache_hit_absent
        cache_insert_absent cache_hit_def)
qed

lemma stalemate_position_consistent: "consistent stalemate_position"
  by (simp add: consistent_def stalemate_position_def)

lemma stalemate_position_single_king: "single_king stalemate_position"
  by (simp add: single_king_def stalemate_position_def king_letter_def)

lemma stalemate_position_moves: "get_possible_moves stalemate_position = Inr ([], stalemate_position)"
  by code_simp

lemma stalemate_position_king:
  "find_entry (m_pieces stalemate_position) (king_letter stalemate_position) = Some (CHR ''k'', 7)"
  by code_simp

lemma stalemate_position_safe:
  "0 = (if square_hit stalemate_position (snd (CHR ''k'', 7 :: int))
             (m_to_move stalemate_position \<noteq> CHR ''w'')
        then - (if m_to_move stalemate_position = CHR ''w'' then 1 else - 1) * MATE else 0)"
  by code_simp

lemma checkmate_position_consistent: "consistent checkmate_position"
  by (simp add: consistent_def checkmate_position_def)

lemma checkmate_position_single_king: "single_king checkmate_position"
  by (simp add: single_king_def checkmate_position_def king_letter_def)

lemma checkmate_position_moves:
  "get_possible_moves checkmate_position = Inr ([], checkmate_generated)"
  by code_simp

lemma checkmate_position_king:
  "find_entry (m_pieces checkmate_position) (king_letter checkmate_position) = Some (CHR ''k'', 7)"
  by code_simp

lemma checkmate_position_hit:
  "1000000 = (if square_hit checkmate_position (snd (CHR ''k'', 7 :: int))
             (m_to_move checkmate_position \<noteq> CHR ''w'')
        then - (if m_to_move checkmate_position = CHR ''w'' then 1 else - 1) * MATE else 0)"
  by code_simp

theorem evaluate_without_moves_witness:
  "evaluate example_hash stalemate_position 3 Map.empty (- MATE) MATE
     = Inr (0, stalemate_position,
            [get_hash example_hash stalemate_position \<mapsto> (INT_MAX, 0)])
   \<and> evaluate example_hash checkmate_position 3 Map.empty (- MATE) MATE
     = Inr (1000000, checkmate_generated,
            [get_hash example_hash checkmate_position \<mapsto> (INT_MAX, 1000000)])"
  using
    evaluate_without_moves [OF stalemate_position_consistent stalemate_position_single_king
      stalemate_position_moves _ stalemate_position_king stalemate_position_safe,
      of Map.empty example_hash 3 "- MATE" MATE]
    evaluate_without_moves [OF checkmate_position_consistent checkmate_position_single_king
      checkmate_position_moves _ checkmate_position_king checkmate_position_hit,
      of Map.empty example_hash 3 "- MATE" MATE]
  by simp

text \<open>
  With an entry for the hash already in the cache the stored score is returned instead: in
  the stalemate position, a cache holding depth 5 and score 7 makes \<open>evaluate\<close> at depth 3
  return 7, not 0.
\<close>

theorem evaluate_cached_counterexample:
  "get_possible_moves stalemate_position = Inr ([], stalemate_position)
   \<and> map_sum id fst (evaluate example_hash stalemate_position 3 stale_cache (- MATE) MATE) = Inr 7"
proof -
  have "cache_hit stale_cache (get_hash example_hash stalemate_position) 3 = Some 7"
    by (simp add: stale_cache_def cache_hit_def)
  then have "evaluate example_hash stalemate_position 3 stale_cache (- MATE) MATE
      = Inr (7, stalemate_position, stale_cache)"
    by (simp add: evaluate.simps [of example_hash stalemate_position 3 stale_cache])
  with stalemate_position_moves show ?thesis by simp
qed

section \<open>The alpha-beta cutoff\<close>

lemma search_moves_cutoff:
  "search_moves child side beta gms pos cache alfa eval = Inr (Cutoff best, pos', cache') \<Longrightarrow>
   process_eval best \<ge> beta"
proof (induction gms arbitrary: pos cache alfa eval)
  case Nil
  then show ?case by simp
next
  case (Cons gm gms)
  from Cons.prems obtain pos1 r pos2 cache2 pos3 where
    s: "perform_move pos (snd gm) = Inr pos1"
       "child pos1 cache (- beta) (- alfa) = Inr (r, pos2, cache2)"
       "undo_move pos2 = Inr pos3"
    by (auto simp add: Let_def split: sum.splits)
  let ?eval = "if r * side > eval then r * side else eval"
  show ?case
  proof (cases "process_eval ?eval \<ge> beta")
    case True
    with Cons.prems s have "best = ?eval" by (simp add: Let_def)
    with True show ?thesis by simp
  next
    case False
    with Cons.prems s obtain alfa' where
      "search_moves child side beta gms pos3 cache2 alfa' ?eval = Inr (Cutoff best, pos', cache')"
      by (simp add: Let_def)
    then show ?thesis by (rule Cons.IH)
  qed
qed

text \<open>
  Claim C6.  When the search loop of \<open>evaluate\<close> ends at the cutoff, with \<open>best\<close> the value
  of \<open>eval\<close> and \<open>cache2\<close> the cache at that moment, then the cutoff condition
  \<open>process_eval best \<ge> beta\<close> holds there and \<open>evaluate\<close> returns \<open>process_eval best * side\<close>
  together with \<open>cache2\<close> itself: nothing is written to the cache on this path.
\<close>

theorem cutoff_returns_without_caching:
  assumes "cache_hit cache (get_hash H P) d = None"
    and "get_possible_moves P = Inr (ms, P0)" and "ms \<noteq> []" and "length (m_pieces P0) > 2"
    and "d > 0"
    and "guess_moves H cache P0 ms = Inr (ordered, P1)"
    and "side = (if m_to_move P0 = CHR ''w'' then 1 else - 1)"
    and "search_moves (\<lambda>p c a b. evaluate H p (d - 1) c a b) side beta (sort_moves ordered)
           P1 cache alfa (- MATE) = Inr (Cutoff best, P2, cache2)"
  shows "process_eval best \<ge> beta
       \<and> evaluate H P d cache alfa beta = Inr (process_eval best * side, P2, cache2)"
proof
  show "process_eval best \<ge> beta" using assms(8) by (rule search_moves_cutoff)
  show "evaluate H P d cache alfa beta = Inr (process_eval best * side, P2, cache2)"
    using assms by (simp add: evaluate.simps [of H P d cache alfa beta])
qed

lemma corner_position_guess:
  "guess_moves example_hash Map.empty corner_position
     [Move 56 57 (CHR ''K'') (CHR ''.'') no_special (- 1)]
   = Inr ([(0, Move 56 57 (CHR ''K'') (CHR ''.'') no_special (- 1))], corner_position)"
  by code_simp

lemma corner_position_search:
  "map_sum id fst
     (search_moves (\<lambda>p c a b. evaluate example_hash p (1 - 1) c a b) 1 0
        (sort_moves [(0, Move 56 57 (CHR ''K'') (CHR ''.'') no_special (- 1))])
        corner_position Map.empty (- MATE) (- MATE)) = Inr (Cutoff 1)"
  by code_simp

theorem cutoff_returns_without_caching_witness:
  "\<exists>P2 cache2.
     search_moves (\<lambda>p c a b. evaluate example_hash p (1 - 1) c a b) 1 0
        (sort_moves [(0, Move 56 57 (CHR ''K'') (CHR ''.'') no_special (- 1))])
        corner_position Map.empty (- MATE) (- MATE) = Inr (Cutoff 1, P2, cache2)
     \<and> process_eval 1 \<ge> 0
     \<and> evaluate example_hash corner_position 1 Map.empty (- MATE) 0
         = Inr (process_eval 1 * 1, P2, cache2)"
proof -
  obtain P2 cache2 where
    s: "search_moves (\<lambda>p c a b. evaluate example_hash p (1 - 1) c a b) 1 0
        (sort_moves [(0, Move 56 57 (CHR ''K'') (CHR ''.'') no_special (- 1))])
        corner_position Map.empty (- MATE) (- MATE) = Inr (Cutoff 1, P2, cache2)"
    using corner_position_search
    by (cases "search_moves (\<lambda>p c a b. evaluate example_hash p (1 - 1) c a b) 1 0
        (sort_moves [(0, Move 56 57 (CHR ''K'') (CHR ''.'') no_special (- 1))])
        corner_position Map.empty (- MATE) (- MATE)") auto
  have h: "cache_hit Map.empty (get_hash example_hash corner_position) 1 = None"
    by (simp add: cache_hit_def)
  have l: "length (m_pieces corner_position) > 2" by (simp add: corner_position_def)
  have w: "(1::int) = (if m_to_move corner_position = CHR ''w'' then 1 else - 1)"
    by (simp add: corner_position_def)
  from cutoff_returns_without_caching [OF h corner_position_moves _ l _ corner_position_guess w s] s
  show ?thesis by auto
qed

section \<open>The fastest mate\<close>

lemma fastest_mate_loop_scores:
  "scores_upto H pos cache k = Inr (ss, p, c) \<Longrightarrow> \<forall>s \<in> set ss. \<not> \<bar>s\<bar> > MATE_THRESHOLD \<Longrightarrow>
   k = 0 \<or> int k \<le> max_moves \<Longrightarrow>
   fastest_mate_loop H pos 0 max_moves cache = fastest_mate_loop H p (int k) max_moves c"
proof (induction k arbitrary: ss p c)
  case 0
  then show ?case by simp
next
  case (Suc k)
  from Suc.prems(1) obtain ss' p' c' s where
    u: "scores_upto H pos cache k = Inr (ss', p', c')"
       "evaluate H p' (2 * int k) c' (- MATE) MATE = Inr (s, p, c)" "ss = ss' @ [s]"
    by (auto split: sum.splits)
  from Suc.prems(3) have lt: "int k < max_moves" by simp
  from u(3) Suc.prems(2) have small: "\<forall>s \<in> set ss'. \<not> \<bar>s\<bar> > MATE_THRESHOLD"
    "\<not> \<bar>s\<bar> > MATE_THRESHOLD" by simp_all
  from Suc.IH [OF u(1) small(1)] lt
  have "fastest_mate_loop H pos 0 max_moves cache = fastest_mate_loop H p' (int k) max_moves c'"
    by simp
  also have "\<dots> = fastest_mate_loop H p (int k + 1) max_moves c"
    using lt u(2) small(2) by (subst fastest_mate_loop.simps) simp
  finally show ?case by (simp add: add.commute)
qed

text \<open>
  Claim C7.  \<open>find_fastest_mate\<close> calls \<open>evaluate\<close> at the depths \<open>2 \<sqdot> d\<close> for
  \<open>d = 0 .. max_moves - 1\<close> in increasing order.  If none of the scores has
  \<open>|score| > MATE_THRESHOLD\<close> it returns "Unknown result".  At the first depth whose score
  has, it returns "White mates in k" for a positive and "Black mates in k" for a negative
  score, with \<open>k = (MATE - |score| + 1) / 2\<close> in C's integer division.
\<close>

theorem find_fastest_mate_result:
  "(scores_upto H pos cache (nat max_moves) = Inr (ss, p, c)
      \<and> (\<forall>s \<in> set ss. \<not> \<bar>s\<bar> > MATE_THRESHOLD)
    \<longrightarrow> find_fastest_mate H pos max_moves cache = Inr (''Unknown result'', p, c))
   \<and> (int n < max_moves \<and> scores_upto H pos cache (Suc n) = Inr (ss @ [s], p, c)
      \<and> (\<forall>s \<in> set ss. \<not> \<bar>s\<bar> > MATE_THRESHOLD) \<and> \<bar>s\<bar> > MATE_THRESHOLD
    \<longrightarrow> find_fastest_mate H pos max_moves cache
          = Inr ((if s > 0 then ''White '' else ''Black '') @ ''mates in ''
                 @ int_to_string ((MATE - \<bar>s\<bar> + 1) sdiv 2), p, c))"
proof (intro conjI impI)
  assume a: "scores_upto H pos cache (nat max_moves) = Inr (ss, p, c)
      \<and> (\<forall>s \<in> set ss. \<not> \<bar>s\<bar> > MATE_THRESHOLD)"
  then have "fastest_mate_loop H pos 0 max_moves cache
      = fastest_mate_loop H p (int (nat max_moves)) max_moves c"
    by (intro fastest_mate_loop_scores [of H pos cache "nat max_moves" ss]) auto
  also have "\<dots> = Inr (''Unknown result'', p, c)"
    by (subst fastest_mate_loop.simps) simp
  finally show "find_fastest_mate H pos max_moves cache = Inr (''Unknown result'', p, c)"
    by (simp add: find_fastest_mate_def)
next
  assume a: "int n < max_moves \<and> scores_upto H pos cache (Suc n) = Inr (ss @ [s], p, c)
      \<and> (\<forall>s \<in> set ss. \<not> \<bar>s\<bar> > MATE_THRESHOLD) \<and> \<bar>s\<bar> > MATE_THRESHOLD"
  then obtain p' c' where
    u: "scores_upto H pos cache n = Inr (ss, p', c')"
       "evaluate H p' (2 * int n) c' (- MATE) MATE = Inr (s, p, c)"
    by (auto split: sum.splits)
  from a have "fastest_mate_loop H pos 0 max_moves cache
      = fastest_mate_loop H p' (int n) max_moves c'"
    by (intro fastest_mate_loop_scores [OF u(1)]) auto
  also have "\<dots> = Inr (mate_label s, p, c)"
    using a u(2) by (subst fastest_mate_loop.simps) simp
  finally show "find_fastest_mate H pos max_moves cache
          = Inr ((if s > 0 then ''White '' else ''Black '') @ ''mates in ''
                 @ int_to_string ((MATE - \<bar>s\<bar> + 1) sdiv 2), p, c)"
    by (simp add: find_fastest_mate_def mate_label_def)
qed

lemma pawn_mate_position_scores:
  "map_sum id fst (scores_upto example_hash pawn_mate_position Map.empty 2) = Inr [2, 999999]"
  by code_simp

lemma pawn_mate_position_first:
  "map_sum id fst (scores_upto example_hash pawn_mate_position Map.empty 1) = Inr [2]"
  by code_simp

lemma pawn_mate_label:
  "(if (999999::int) > 0 then ''White '' else ''Black '') @ ''mates in ''
     @ int_to_string ((MATE - \<bar>999999\<bar> + 1) sdiv 2) = ''White mates in 1''"
  by code_simp

theorem find_fastest_mate_result_witness:
  "map_sum id fst (find_fastest_mate example_hash pawn_mate_position 2 Map.empty)
     = Inr ''White mates in 1''
   \<and> map_sum id fst (find_fastest_mate example_hash pawn_mate_position 1 Map.empty)
     = Inr ''Unknown result''"
proof -
  obtain p c where
    s2: "scores_upto example_hash pawn_mate_position Map.empty (Suc 1) = Inr ([2] @ [999999], p, c)"
    using pawn_mate_position_scores
    by (cases "scores_upto example_hash pawn_mate_position Map.empty 2")
       (auto simp add: numeral_2_eq_2)
  obtain p' c' where
    s1: "scores_upto example_hash pawn_mate_position Map.empty (nat 1) = Inr ([2], p', c')"
    using pawn_mate_position_first
    by (cases "scores_upto example_hash pawn_mate_position Map.empty 1") auto
  have t: "\<forall>s \<in> set [2::int]. \<not> \<bar>s\<bar> > MATE_THRESHOLD" "\<bar>999999::int\<bar> > MATE_THRESHOLD"
    by (simp_all add: MATE_THRESHOLD_def)
  from find_fastest_mate_result [of example_hash pawn_mate_position Map.empty 2 "[2]" p c 1 999999]
    s2 t pawn_mate_label
  have "find_fastest_mate example_hash pawn_mate_position 2 Map.empty
      = Inr (''White mates in 1'', p, c)" by simp
  moreover
  from find_fastest_mate_result [of example_hash pawn_mate_position Map.empty 1 "[2]" p' c']
    s1 t
  have "find_fastest_mate example_hash pawn_mate_position 1 Map.empty
      = Inr (''Unknown result'', p', c')" by simp
  ultimately show ?thesis by simp
qed

section \<open>The FEN round trip\<close>

lemma fen_at_here: "fen_at (pre @ c # rest) (length pre) = Inr c"
  by (simp add: fen_at_def)

lemma parse_slash:
  assumes "i < 64"
  shows "parse_board (pre @ CHR ''/'' # rest) i (length pre) B pcs
       = parse_board ((pre @ ''/'') @ rest) i (length (pre @ ''/'')) B pcs"
  using assms
  by (subst parse_board.simps) (simp add: fen_at_here)

lemma digit_char:
  assumes "0 < n" and "n \<le> 8"
  shows "int_to_string (int n) = [char_of (48 + int n)]"
    and "is_digit (char_of (48 + int n))"
    and "char_of (48 + int n) \<noteq> CHR ''/''"
    and "nat (of_char (char_of (48 + int n)) - 48) = n"
proof -
  show "int_to_string (int n) = [char_of (48 + int n)]"
    using assms by (simp add: int_to_string_def nat_to_string.simps [of n])
  have m: "(48 + int n) mod 256 = 48 + int n" using assms by simp
  show "is_digit (char_of (48 + int n))"
    using assms by (simp add: is_digit_def m)
  show "nat (of_char (char_of (48 + int n)) - 48) = n"
    using assms by (simp add: m)
  show "char_of (48 + int n) \<noteq> CHR ''/''"
  proof
    assume "char_of (48 + int n) = CHR ''/''"
    then have "(of_char (char_of (48 + int n)) :: int) = of_char (CHR ''/'')" by simp
    then show False using assms by (simp add: m)
  qed
qed

lemma parse_digit:
  assumes "i < 64" and "0 < n" and "n \<le> 8" and "i + n \<le> 64"
  shows "parse_board (pre @ int_to_string (int n) @ rest) i (length pre) B pcs
       = parse_board ((pre @ int_to_string (int n)) @ rest) (i + n)
           (length (pre @ int_to_string (int n))) (B @ replicate n (CHR ''.'')) pcs"
  using assms digit_char [OF assms(2,3)]
  by (subst parse_board.simps) (simp add: fen_at_here Let_def)

lemma parse_letter:
  assumes "i < 64" and "fen_letter c"
  shows "parse_board (pre @ c # rest) i (length pre) B pcs
       = parse_board ((pre @ [c]) @ rest) (i + 1) (length (pre @ [c])) (B @ [c])
           (pcs @ [(c, int i)])"
  using assms
  by (subst parse_board.simps) (simp add: fen_at_here fen_letter_def insert_entry_def)

lemma parse_done: "parse_board fen 64 j B pcs = Inr (B, pcs, j)"
  by (subst parse_board.simps) simp

lemma parse_run:
  assumes "n \<le> 8" and "i + n \<le> 64" and "i < 64"
  shows "parse_board (pre @ (if n > 0 then int_to_string (int n) else []) @ rest) i (length pre) B pcs
       = parse_board ((pre @ (if n > 0 then int_to_string (int n) else [])) @ rest) (i + n)
           (length (pre @ (if n > 0 then int_to_string (int n) else [])))
           (B @ replicate n (CHR ''.'')) pcs"
proof (cases "n > 0")
  case True
  with parse_digit [OF assms(3) True assms(1,2), of pre rest B pcs] show ?thesis by simp
next
  case False
  then show ?thesis by simp
qed

lemma parse_sep:
  "parse_board (pre @ (if i < 64 then ''/'' else []) @ rest) i (length pre) B pcs
   = parse_board ((pre @ (if i < 64 then ''/'' else [])) @ rest) i
       (length (pre @ (if i < 64 then ''/'' else []))) B pcs"
proof (cases "i < 64")
  case True
  with parse_slash [OF True, of pre rest B pcs] show ?thesis by simp
next
  case False
  then show ?thesis by simp
qed

lemma fen_board_empty_square:
  "fen_board (CHR ''.'' # cs) i e =
     (if i mod 8 = 7
      then int_to_string (int (e + 1)) @ (if i \<noteq> 63 then ''/'' else []) @ fen_board cs (i + 1) 0
      else fen_board cs (i + 1) (e + 1))"
  by (simp add: Let_def)

lemma fen_board_piece_square:
  "c \<noteq> CHR ''.'' \<Longrightarrow>
   fen_board (c # cs) i e =
     (if e > 0 then int_to_string (int e) else []) @ [c]
     @ (if i mod 8 = 7 then (if i \<noteq> 63 then ''/'' else []) else []) @ fen_board cs (i + 1) 0"
  by (simp add: Let_def)

lemma parse_fen_board:
  "length cs + i = 64 \<Longrightarrow> e \<le> i mod 8 \<Longrightarrow> \<forall>c \<in> set cs. fen_letter c \<Longrightarrow>
   parse_board (pre @ fen_board cs i e @ rest) (i - e) (length pre) B pcs
     = Inr (B @ replicate e (CHR ''.'') @ cs, pcs @ entries_from i cs,
            length pre + length (fen_board cs i e))"
proof (induction cs arbitrary: i e pre B pcs)
  case Nil
  then have "i = 64" "e = 0" by simp_all
  then show ?case by (simp add: parse_done)
next
  case (Cons c cs)
  from Cons.prems(1) have i: "i < 64" "length cs + (i + 1) = 64" by simp_all
  have e: "e \<le> i" "e \<le> 7"
    using Cons.prems(2) mod_less_eq_dividend [of i 8] by (auto intro: order_trans)
  have letters: "\<forall>c \<in> set cs. fen_letter c" "fen_letter c" using Cons.prems(3) by simp_all
  show ?case
  proof (cases "c = CHR ''.''")
    case empty: True
    show ?thesis
    proof (cases "i mod 8 = 7")
      case False
      then have e': "e + 1 \<le> (i + 1) mod 8" using Cons.prems(2) by presburger
      from Cons.IH [OF i(2) e' letters(1), of pre B pcs] e(1) empty False
      show ?thesis by (simp add: fen_board_empty_square replicate_app_Cons_same)
    next
      case True
      let ?d = "int_to_string (int (e + 1))"
      let ?s = "if i + 1 < 64 then ''/'' else []"
      let ?tail = "fen_board cs (i + 1) 0"
      have z: "0 \<le> (i + 1) mod 8" by simp
      have f: "fen_board (c # cs) i e = ?d @ ?s @ ?tail"
        using empty True i(1) by (auto simp add: fen_board_empty_square)
      have "parse_board (pre @ (?d @ ?s @ ?tail) @ rest) (i - e) (length pre) B pcs
          = parse_board ((pre @ ?d) @ ?s @ ?tail @ rest) (i - e + (e + 1)) (length (pre @ ?d))
              (B @ replicate (e + 1) (CHR ''.'')) pcs"
        using parse_run [of "e + 1" "i - e" pre "?s @ ?tail @ rest" B pcs] e i(1) by simp
      also have "\<dots> = parse_board (((pre @ ?d) @ ?s) @ ?tail @ rest) (i + 1)
              (length ((pre @ ?d) @ ?s)) (B @ replicate (e + 1) (CHR ''.'')) pcs"
        using parse_sep [of "pre @ ?d" "i + 1" "?tail @ rest" "B @ replicate (e + 1) (CHR ''.'')" pcs]
          e(1) by simp
      also have "\<dots> = Inr ((B @ replicate (e + 1) (CHR ''.'')) @ replicate 0 (CHR ''.'') @ cs,
              pcs @ entries_from (i + 1) cs, length ((pre @ ?d) @ ?s) + length ?tail)"
        using Cons.IH [OF i(2) z letters(1), of "(pre @ ?d) @ ?s"
            "B @ replicate (e + 1) (CHR ''.'')" pcs] by simp
      finally have r: "parse_board (pre @ (?d @ ?s @ ?tail) @ rest) (i - e) (length pre) B pcs
          = Inr ((B @ replicate (e + 1) (CHR ''.'')) @ replicate 0 (CHR ''.'') @ cs,
              pcs @ entries_from (i + 1) cs, length ((pre @ ?d) @ ?s) + length ?tail)" .
      show ?thesis
        unfolding f using r empty by (simp add: replicate_app_Cons_same)
    qed
  next
    case piece: False
    let ?d = "if e > 0 then int_to_string (int e) else []"
    let ?s = "if i mod 8 = 7 then (if i + 1 < 64 then ''/'' else []) else []"
    let ?tail = "fen_board cs (i + 1) 0"
    have z: "0 \<le> (i + 1) mod 8" by simp
    have f: "fen_board (c # cs) i e = ?d @ [c] @ ?s @ ?tail"
      using piece i(1) by (auto simp add: fen_board_piece_square)
    have "parse_board (pre @ (?d @ [c] @ ?s @ ?tail) @ rest) (i - e) (length pre) B pcs
        = parse_board ((pre @ ?d) @ c # ?s @ ?tail @ rest) (i - e + e) (length (pre @ ?d))
            (B @ replicate e (CHR ''.'')) pcs"
      using parse_run [of e "i - e" pre "c # ?s @ ?tail @ rest" B pcs] e i(1) by simp
    also have "\<dots> = parse_board (((pre @ ?d) @ [c]) @ ?s @ ?tail @ rest) (i + 1)
            (length ((pre @ ?d) @ [c])) ((B @ replicate e (CHR ''.'')) @ [c]) (pcs @ [(c, int i)])"
      using parse_letter [OF i(1) letters(2), of "pre @ ?d" "?s @ ?tail @ rest"
          "B @ replicate e (CHR ''.'')" pcs] e(1) by simp
    also have "\<dots> = parse_board ((((pre @ ?d) @ [c]) @ ?s) @ ?tail @ rest) (i + 1)
            (length (((pre @ ?d) @ [c]) @ ?s)) ((B @ replicate e (CHR ''.'')) @ [c])
            (pcs @ [(c, int i)])"
    proof (cases "i mod 8 = 7")
      case True
      with parse_sep [of "(pre @ ?d) @ [c]" "i + 1" "?tail @ rest"
          "(B @ replicate e (CHR ''.'')) @ [c]" "pcs @ [(c, int i)]"]
      show ?thesis by simp
    next
      case False
      then show ?thesis by simp
    qed
    also have "\<dots> = Inr (((B @ replicate e (CHR ''.'')) @ [c]) @ replicate 0 (CHR ''.'') @ cs,
            (pcs @ [(c, int i)]) @ entries_from (i + 1) cs,
            length (((pre @ ?d) @ [c]) @ ?s) + length ?tail)"
      using Cons.IH [OF i(2) z letters(1), of "((pre @ ?d) @ [c]) @ ?s"
          "(B @ replicate e (CHR ''.'')) @ [c]" "pcs @ [(c, int i)]"] by simp
    finally have r: "parse_board (pre @ (?d @ [c] @ ?s @ ?tail) @ rest) (i - e) (length pre) B pcs
        = Inr (((B @ replicate e (CHR ''.'')) @ [c]) @ replicate 0 (CHR ''.'') @ cs,
            (pcs @ [(c, int i)]) @ entries_from (i + 1) cs,
            length (((pre @ ?d) @ [c]) @ ?s) + length ?tail)" .
    show ?thesis
      unfolding f using r piece by simp
  qed
qed

lemma skip_castles_dash:
  assumes "j = length pre"
  shows "skip_castles (pre @ ''- '' @ rest) j = Inr (j + 1)"
proof -
  have "skip_castles (pre @ ''- '' @ rest) j = skip_castles (pre @ ''- '' @ rest) (j + 1)"
    using assms by (subst skip_castles.simps) (simp add: fen_at_def)
  also have "\<dots> = Inr (j + 1)"
    using assms by (subst skip_castles.simps) (simp add: fen_at_def nth_append)
  finally show ?thesis .
qed

lemma square_string_round_trip:
  assumes "0 \<le> sq" and "sq < 64"
  shows "\<exists>c0 c1. square_string sq = [c0, c1] \<and> c0 \<noteq> CHR ''-'' \<and> get_square_str c0 c1 = Inr sq"
proof -
  have d: "sq smod 8 = sq mod 8" "sq sdiv 8 = sq div 8"
    using assms by (simp_all add: signed_modulo_int_def signed_divide_int_def sgn_if)
  have r: "0 \<le> sq mod 8" "sq mod 8 < 8" "0 \<le> sq div 8" "sq div 8 < 8"
    using assms by auto
  let ?c0 = "char_of (sq mod 8 + 97) :: char" and ?c1 = "char_of (8 - sq div 8 + 48) :: char"
  have m: "(sq mod 8 + 97) mod 256 = sq mod 8 + 97" "(8 - sq div 8 + 48) mod 256 = 8 - sq div 8 + 48"
    using r by simp_all
  have o: "(of_char ?c0 :: int) = sq mod 8 + 97" "(of_char ?c1 :: int) = 8 - sq div 8 + 48"
    using m by simp_all
  have l: "to_lower ?c0 = ?c0" "to_lower ?c1 = ?c1"
    using r o by (simp_all add: to_lower_def is_upper_def)
  have "?c0 \<noteq> CHR ''-''"
  proof
    assume "?c0 = CHR ''-''"
    then have "(of_char ?c0 :: int) = of_char (CHR ''-'')" by simp
    with o r show False by simp
  qed
  moreover have "get_square_str ?c0 ?c1 = Inr sq"
    using r o l by (simp add: get_square_str_def get_square_def are_valid_coords_def)
  ultimately show ?thesis by (simp add: square_string_def d)
qed

text \<open>
  Claim C9.  For a position whose board holds 64 entries, none of them a digit or a slash,
  whose piece list holds exactly the non-empty squares of the board, and whose en-passant
  square is \<open>-1\<close> or a square: the constructor applied to \<open>get_fen\<close> of the position
  succeeds, and the position it builds has the same board, side to move and en-passant
  square, and the same multiset of (piece, square) entries.
\<close>

theorem fen_round_trip:
  assumes "fen_position P"
  shows "\<exists>P'. Position_FEN (get_fen P) = Inr P'
           \<and> m_board P' = m_board P \<and> m_to_move P' = m_to_move P
           \<and> m_en_passant P' = m_en_passant P
           \<and> mset (m_pieces P') = mset (m_pieces P)"
proof -
  let ?brd = "fen_board (m_board P) 0 0"
  let ?ep = "if m_en_passant P = - 1 then ''-'' else square_string (m_en_passant P)"
  have f: "get_fen P = [] @ ?brd @ (CHR '' '' # m_to_move P # '' - '' @ ?ep @ '' 0 1'')"
    by (simp add: get_fen_def)
  have len: "length (m_board P) + 0 = 64" and letters: "\<forall>c \<in> set (m_board P). fen_letter c"
    and pcs: "mset (m_pieces P) = mset (entries_from 0 (m_board P))"
    and ep: "m_en_passant P = - 1 \<or> (0 \<le> m_en_passant P \<and> m_en_passant P < 64)"
    using assms by (simp_all add: fen_position_def)
  have b: "parse_board (get_fen P) 0 0 [] []
      = Inr (m_board P, entries_from 0 (m_board P), length ?brd)"
    unfolding f
    using parse_fen_board [OF len _ letters, of 0 "[]" _ "[]" "[]"] by simp
  have g: "get_fen P = (?brd @ [CHR '' '', m_to_move P, CHR '' '']) @ ''- '' @ (?ep @ '' 0 1'')"
    by (simp add: get_fen_def)
  have tm: "fen_at (get_fen P) (length ?brd + 1) = Inr (m_to_move P)"
    by (simp add: get_fen_def fen_at_def nth_append)
  have sk: "skip_castles (get_fen P) (length ?brd + 3) = Inr (length ?brd + 4)"
    unfolding g
    using skip_castles_dash [of "length ?brd + 3" "?brd @ [CHR '' '', m_to_move P, CHR '' '']"
        "?ep @ '' 0 1''"]
    by simp
  show ?thesis
  proof (cases "m_en_passant P = - 1")
    case True
    then have "fen_at (get_fen P) (length ?brd + 4 + 1) = Inr (CHR ''-'')"
      by (simp add: get_fen_def fen_at_def nth_append)
    with b tm sk True pcs show ?thesis
      by (simp add: Position_FEN_def)
  next
    case False
    with ep have r: "0 \<le> m_en_passant P" "m_en_passant P < 64" by simp_all
    from square_string_round_trip [OF r] obtain c0 c1 where
      c: "square_string (m_en_passant P) = [c0, c1]" "c0 \<noteq> CHR ''-''"
         "get_square_str c0 c1 = Inr (m_en_passant P)" by blast
    have "fen_at (get_fen P) (length ?brd + 4 + 1) = Inr c0"
      "fen_at (get_fen P) (length ?brd + 4 + 2) = Inr c1"
      using False c(1) by (simp_all add: get_fen_def fen_at_def nth_append)
    with b tm sk False pcs c show ?thesis
      by (simp add: Position_FEN_def)
  qed
qed

lemma ep_position_fen_position: "fen_position ep_position"
  by code_simp

lemma ep_position_fen: "get_fen ep_position = ''4k3/8/8/3pP3/8/8/8/4K3 w - d6 0 1''"
  by code_simp

theorem fen_round_trip_witness:
  "fen_position ep_position
   \<and> get_fen ep_position = ''4k3/8/8/3pP3/8/8/8/4K3 w - d6 0 1''
   \<and> (\<exists>P'. Position_FEN ''4k3/8/8/3pP3/8/8/8/4K3 w - d6 0 1'' = Inr P'
         \<and> m_board P' = m_board ep_position \<and> m_to_move P' = m_to_move ep_position
         \<and> m_en_passant P' = m_en_passant ep_position
         \<and> mset (m_pieces P') = mset (m_pieces ep_position))"
  using fen_round_trip [OF ep_position_fen_position] ep_position_fen_position ep_position_fen
  by simp

subsection \<open>Positions that satisfy the hypothesis\<close>

text \<open>
  The starting position is such a position, and a move that fits such a position leads to
  one again; so does undoing it, which restores the position.
\<close>

lemma set_entries_from:
  "set (entries_from k b) = {(b ! i, int (k + i)) | i. i < length b \<and> b ! i \<noteq> CHR ''.''}"
proof (induction b arbitrary: k)
  case Nil
  show ?case by simp
next
  case (Cons c cs)
  have "{((c # cs) ! i, int (k + i)) | i. i < length (c # cs) \<and> (c # cs) ! i \<noteq> CHR ''.''}
      = (if c = CHR ''.'' then {} else {(c, int k)})
        \<union> {(cs ! i, int (Suc k + i)) | i. i < length cs \<and> cs ! i \<noteq> CHR ''.''}"
    (is "?L = ?R")
  proof (intro set_eqI iffI)
    fix x assume "x \<in> ?L"
    then obtain i where i: "x = ((c # cs) ! i, int (k + i))" "i < length (c # cs)"
      "(c # cs) ! i \<noteq> CHR ''.''" by blast
    show "x \<in> ?R"
    proof (cases i)
      case 0
      with i show ?thesis by simp
    next
      case (Suc j)
      with i have "x = (cs ! j, int (Suc k + j))" "j < length cs" "cs ! j \<noteq> CHR ''.''" by simp_all
      then show ?thesis by blast
    qed
  next
    fix x assume "x \<in> ?R"
    then consider "c \<noteq> CHR ''.''" "x = (c, int k)"
      | j where "x = (cs ! j, int (Suc k + j))" "j < length cs" "cs ! j \<noteq> CHR ''.''"
      by (auto split: if_splits)
    then show "x \<in> ?L"
    proof cases
      case 1
      then have "x = ((c # cs) ! 0, int (k + 0))" "0 < length (c # cs)" "(c # cs) ! 0 \<noteq> CHR ''.''"
        by simp_all
      then show ?thesis by blast
    next
      case 2
      then have "x = ((c # cs) ! Suc j, int (k + Suc j))" "Suc j < length (c # cs)"
        "(c # cs) ! Suc j \<noteq> CHR ''.''" by simp_all
      then show ?thesis by blast
    qed
  qed
  then show ?case by (simp add: Cons.IH)
qed

lemma entries_from_squares: "e \<in> set (entries_from k b) \<Longrightarrow> int k \<le> snd e"
  by (auto simp add: set_entries_from)

lemma distinct_entries_from: "distinct (entries_from k b)"
proof (induction b arbitrary: k)
  case Nil
  show ?case by simp
next
  case (Cons c cs)
  have "(c, int k) \<notin> set (entries_from (Suc k) cs)"
    using entries_from_squares [of "(c, int k)" "Suc k" cs] by auto
  then show ?case by (simp add: Cons.IH)
qed

lemma fen_pieces_iff:
  assumes "length b = 64"
  shows "mset pcs = mset (entries_from 0 b) \<longleftrightarrow> agrees b pcs \<and> covers b pcs"
proof
  assume m: "mset pcs = mset (entries_from 0 b)"
  then have s: "set pcs = set (entries_from 0 b)" by (rule mset_eq_setD)
  have d: "distinct pcs" using m distinct_entries_from [of 0 b] by (metis mset_eq_imp_distinct_iff)
  have "agrees b pcs"
  proof (rule agreesI [OF assms d])
    fix p sq assume "(p, sq) \<in> set pcs"
    then obtain i where "p = b ! i" "sq = int i" "i < length b" "b ! i \<noteq> CHR ''.''"
      by (auto simp add: s set_entries_from)
    then show "0 \<le> sq \<and> sq < 64 \<and> b ! nat sq = p \<and> p \<noteq> CHR ''.''"
      using assms by simp
  qed
  moreover have "covers b pcs"
    unfolding covers_def s set_entries_from by auto
  ultimately show "agrees b pcs \<and> covers b pcs" ..
next
  assume a: "agrees b pcs \<and> covers b pcs"
  then have ag: "agrees b pcs" and co: "covers b pcs" by simp_all
  have "set pcs = set (entries_from 0 b)"
  proof (intro set_eqI iffI)
    fix x assume x: "x \<in> set pcs"
    obtain p sq where xp: "x = (p, sq)" by (cases x)
    note f = agreesD [OF ag x [unfolded xp]]
    then have "x = (b ! nat sq, int (0 + nat sq))" "nat sq < length b" "b ! nat sq \<noteq> CHR ''.''"
      using assms xp by simp_all
    then show "x \<in> set (entries_from 0 b)" unfolding set_entries_from by blast
  next
    fix x assume "x \<in> set (entries_from 0 b)"
    then obtain i where "x = (b ! i, int i)" "i < length b" "b ! i \<noteq> CHR ''.''"
      by (auto simp add: set_entries_from)
    with co show "x \<in> set pcs" by (simp add: covers_def)
  qed
  with agrees_distinct [OF ag] distinct_entries_from [of 0 b]
  show "mset pcs = mset (entries_from 0 b)"
    by (simp add: set_eq_iff_mset_eq_distinct)
qed

lemma coversI:
  assumes "\<And>i. i < length b \<Longrightarrow> b ! i \<noteq> CHR ''.'' \<Longrightarrow> (b ! i, int i) \<in> set pcs"
  shows "covers b pcs"
  using assms by (simp add: covers_def)

lemma coversD: "covers b pcs \<Longrightarrow> i < length b \<Longrightarrow> b ! i \<noteq> CHR ''.'' \<Longrightarrow> (b ! i, int i) \<in> set pcs"
  by (simp add: covers_def)

lemma covers_clear:
  assumes "covers b pcs" and "distinct pcs" and "0 \<le> s"
  shows "covers (b[nat s := CHR ''.'']) (erase_entry pcs (p, s))"
proof (rule coversI)
  fix i assume i: "i < length (b[nat s := CHR ''.''])" "b[nat s := CHR ''.''] ! i \<noteq> CHR ''.''"
  then have ne: "i \<noteq> nat s" by (auto simp add: nth_upd_if split: if_splits)
  with i have "(b ! i, int i) \<in> set pcs" using coversD [OF assms(1), of i] by simp
  moreover have "int i \<noteq> s" using ne assms(3) by auto
  ultimately show "(b[nat s := CHR ''.''] ! i, int i) \<in> set (erase_entry pcs (p, s))"
    using ne assms(2) by (simp add: set_erase_entry)
qed

lemma covers_replace:
  assumes "covers b pcs" and "distinct pcs" and "0 \<le> s"
  shows "covers (b[nat s := c]) (insert_entry (erase_entry pcs (p, s)) (c, s))"
proof (rule coversI)
  fix i assume i: "i < length (b[nat s := c])" "b[nat s := c] ! i \<noteq> CHR ''.''"
  show "(b[nat s := c] ! i, int i) \<in> set (insert_entry (erase_entry pcs (p, s)) (c, s))"
  proof (cases "i = nat s")
    case True
    with i assms(3) show ?thesis by (simp add: insert_entry_def)
  next
    case False
    with i have "(b ! i, int i) \<in> set pcs" using coversD [OF assms(1), of i] by simp
    moreover have "int i \<noteq> s" using False assms(3) by auto
    ultimately show ?thesis
      using False assms(2) by (simp add: set_erase_entry insert_entry_def)
  qed
qed

lemma perform_move_covers:
  assumes ag: "agrees (m_board pos) (m_pieces pos)"
    and co: "covers (m_board pos) (m_pieces pos)"
    and fits: "move_fits pos m"
    and pm: "perform_move pos m = Inr pos1"
  shows "covers (m_board pos1) (m_pieces pos1)"
proof -
  note pf = perform_move_InrD [OF pm]
  have cap: "m_captured m = m_board pos ! nat (m_to m)"
    using fits by (simp add: move_fits_def)
  let ?pcs0 = "if m_captured m \<noteq> CHR ''.''
               then erase_entry (m_pieces pos) (m_captured m, m_to m) else m_pieces pos"
  let ?pcs2 = "set_square ?pcs0 (m_piece m, m_from m) (m_to m)"
  have d: "distinct (m_pieces pos)" using agrees_distinct [OF ag] .
  have len: "length (m_board pos) = 64" using agrees_length [OF ag] .
  have ag0: "agrees (m_board pos) ?pcs0" using ag by (simp add: agrees_erase)
  have d0: "distinct ?pcs0" using agrees_distinct [OF ag0] .
  have s0: "set ?pcs0 = (if m_captured m \<noteq> CHR ''.'' then set (m_pieces pos) - {(m_captured m, m_to m)}
                         else set (m_pieces pos))"
    using d by (simp add: set_erase_entry)
  have pf0: "(m_piece m, m_from m) \<in> set ?pcs0" using pf(1) pf(6) by (auto simp add: s0)
  have s2: "set ?pcs2 = insert (m_piece m, m_to m) (set ?pcs0 - {(m_piece m, m_from m)})"
    using set_set_square [OF d0, of "(m_piece m, m_from m)" "m_to m"] pf0 by simp
  have noto: "(p, m_to m) \<notin> set ?pcs0" for p
  proof
    assume a: "(p, m_to m) \<in> set ?pcs0"
    then have "(p, m_to m) \<in> set (m_pieces pos)" by (auto simp add: s0 split: if_splits)
    from agreesD [OF ag this] cap have "p = m_captured m" "m_captured m \<noteq> CHR ''.''" by auto
    with a d show False by (simp add: set_erase_entry)
  qed
  have d2: "distinct ?pcs2"
    using d0 noto by (intro distinct_set_square) auto
  have c2: "covers (basic_board (m_board pos) m) ?pcs2"
  proof (rule coversI)
    fix i assume i: "i < length (basic_board (m_board pos) m)"
      "basic_board (m_board pos) m ! i \<noteq> CHR ''.''"
    show "(basic_board (m_board pos) m ! i, int i) \<in> set ?pcs2"
    proof (cases "i = nat (m_to m)")
      case True
      with i pf(4) show ?thesis by (simp add: basic_board_def s2 del: set_square.simps)
    next
      case False
      with i have nf: "i \<noteq> nat (m_from m)"
        by (auto simp add: basic_board_def nth_upd_if split: if_splits)
      from i False nf have b: "basic_board (m_board pos) m ! i = m_board pos ! i"
        "i < length (m_board pos)" "m_board pos ! i \<noteq> CHR ''.''"
        by (simp_all add: basic_board_def)
      from coversD [OF co b(2,3)] have "(m_board pos ! i, int i) \<in> set (m_pieces pos)" .
      moreover have "int i \<noteq> m_to m" "int i \<noteq> m_from m"
        using False nf pf(2,4) by auto
      ultimately show ?thesis unfolding b(1) s2 s0 by auto
    qed
  qed
  from perform_special_InrD [OF pf(9)] show ?thesis
  proof (elim disjE conjE)
    assume "m_pieces pos1 = ?pcs2" "m_board pos1 = basic_board (m_board pos) m"
    with c2 show ?thesis by simp
  next
    assume "0 \<le> m_to m - 8" "m_pieces pos1 = erase_entry ?pcs2 (CHR ''P'', m_to m - 8)"
      "m_board pos1 = (basic_board (m_board pos) m)[nat (m_to m - 8) := CHR ''.'']"
    with covers_clear [OF c2 d2, of "m_to m - 8" "CHR ''P''"] show ?thesis by simp
  next
    assume "0 \<le> m_to m + 8" "m_pieces pos1 = erase_entry ?pcs2 (CHR ''p'', m_to m + 8)"
      "m_board pos1 = (basic_board (m_board pos) m)[nat (m_to m + 8) := CHR ''.'']"
    with covers_clear [OF c2 d2, of "m_to m + 8" "CHR ''p''"] show ?thesis by simp
  next
    assume "m_pieces pos1 = insert_entry (erase_entry ?pcs2 (m_piece m, m_to m)) (m_special m, m_to m)"
      "m_board pos1 = (basic_board (m_board pos) m)[nat (m_to m) := m_special m]"
    with covers_replace [OF c2 d2 pf(4), of "m_special m" "m_piece m"] show ?thesis by simp
  qed
qed

lemma fen_letter_dot [simp]: "fen_letter (CHR ''.'')"
  by (simp add: fen_letter_def is_digit_def)

lemma fen_letter_special:
  "c \<in> set special_letters \<Longrightarrow> fen_letter c"
  by (auto simp add: special_letters_def fen_letter_def is_digit_def no_special_def)

lemma perform_move_letters:
  assumes ag: "agrees (m_board pos) (m_pieces pos)"
    and le: "\<forall>c \<in> set (m_board pos). fen_letter c"
    and fits: "move_fits pos m"
    and pm: "perform_move pos m = Inr pos1"
  shows "\<forall>c \<in> set (m_board pos1). fen_letter c"
proof -
  note pf = perform_move_InrD [OF pm]
  have sp: "fen_letter (m_special m)"
    using fits by (simp add: move_fits_def fen_letter_special)
  have "m_board pos ! nat (m_from m) = m_piece m" using agreesD(3) [OF ag pf(1)] .
  moreover have "nat (m_from m) < length (m_board pos)"
    using pf(2,3) agrees_length [OF ag] by simp
  ultimately have "m_piece m \<in> set (m_board pos)" using nth_mem by metis
  then have pc: "fen_letter (m_piece m)" using le by simp
  have up: "\<forall>c \<in> set (b[i := x]). fen_letter c"
    if "\<forall>c \<in> set b. fen_letter c" "fen_letter x" for b i x
    using that set_update_subset_insert [of b i x] by blast
  have b2: "\<forall>c \<in> set (basic_board (m_board pos) m). fen_letter c"
    unfolding basic_board_def by (intro up le pc) simp
  from perform_special_InrD [OF pf(9)] show ?thesis
  proof (elim disjE conjE)
    assume "m_board pos1 = basic_board (m_board pos) m"
    with b2 show ?thesis by simp
  next
    assume "m_board pos1 = (basic_board (m_board pos) m)[nat (m_to m - 8) := CHR ''.'']"
    with up [OF b2 fen_letter_dot] show ?thesis by simp
  next
    assume "m_board pos1 = (basic_board (m_board pos) m)[nat (m_to m + 8) := CHR ''.'']"
    with up [OF b2 fen_letter_dot] show ?thesis by simp
  next
    assume "m_board pos1 = (basic_board (m_board pos) m)[nat (m_to m) := m_special m]"
    with up [OF b2 sp] show ?thesis by simp
  qed
qed

lemma perform_move_en_passant_range:
  assumes "perform_move pos m = Inr pos1"
  shows "m_en_passant pos1 = - 1 \<or> (0 \<le> m_en_passant pos1 \<and> m_en_passant pos1 < 64)"
proof (cases "to_lower (m_piece m) = CHR ''p'' \<and> \<bar>m_from m - m_to m\<bar> = 16")
  case False
  have "m_en_passant pos1 = - 1"
    by (subst perform_move_en_passant [OF assms]) (rule if_not_P [OF False])
  then show ?thesis by simp
next
  case True
  note pf = perform_move_InrD [OF assms]
  have s: "(m_to m + m_from m) sdiv 2 = (m_to m + m_from m) div 2"
    using pf(2,4) by (simp add: signed_divide_int_def sgn_if)
  have "0 \<le> (m_to m + m_from m) div 2" using pf(2,4) by simp
  moreover have "(m_to m + m_from m) div 2 < 64" using pf(3,5) by linarith
  moreover have "m_en_passant pos1 = (m_to m + m_from m) sdiv 2"
    by (subst perform_move_en_passant [OF assms]) (rule if_P [OF True])
  ultimately show ?thesis using s by simp
qed

lemma perform_move_fen_position:
  assumes "fen_position P" and "move_fits P m" and "perform_move P m = Inr P1"
  shows "fen_position P1"
proof -
  from assms(1) have len: "length (m_board P) = 64"
    and le: "\<forall>c \<in> set (m_board P). fen_letter c"
    and ms: "mset (m_pieces P) = mset (entries_from 0 (m_board P))"
    by (simp_all add: fen_position_def)
  from ms have ag: "agrees (m_board P) (m_pieces P)" and co: "covers (m_board P) (m_pieces P)"
    by (simp_all add: fen_pieces_iff [OF len])
  note ag1 = perform_move_agrees [OF ag assms(2,3)]
  note co1 = perform_move_covers [OF ag co assms(2,3)]
  have "mset (m_pieces P1) = mset (entries_from 0 (m_board P1))"
    using ag1 co1 by (simp add: fen_pieces_iff [OF agrees_length [OF ag1]])
  with agrees_length [OF ag1] perform_move_letters [OF ag le assms(2,3)]
    perform_move_en_passant_range [OF assms(3)]
  show ?thesis by (simp add: fen_position_def)
qed

lemma same_position_fen_position:
  "same_position Q P \<Longrightarrow> fen_position P \<Longrightarrow> fen_position Q"
  by (simp add: same_position_def fen_position_def)

lemma Position_start_fen_position:
  "(case Position_start of Inl e \<Rightarrow> False | Inr S \<Rightarrow> fen_position S)"
  by code_simp

section \<open>The colour swap\<close>

subsection \<open>Letters and entries\<close>

lemma of_char_to_lower: "is_upper c \<Longrightarrow> (of_char (to_lower c) :: int) = of_char c + 32"
  by (simp add: to_lower_def is_upper_def)

lemma of_char_to_upper: "is_lower c \<Longrightarrow> (of_char (to_upper c) :: int) = of_char c - 32"
  by (simp add: to_upper_def is_lower_def)

lemma upper_not_lower: "is_upper c \<Longrightarrow> \<not> is_lower c"
  by (simp add: is_upper_def is_lower_def)

lemma to_lower_lower: "is_upper c \<Longrightarrow> is_lower (to_lower c) \<and> \<not> is_upper (to_lower c)"
  using of_char_to_lower [of c] by (simp add: is_upper_def is_lower_def)

lemma to_upper_upper: "is_lower c \<Longrightarrow> is_upper (to_upper c) \<and> \<not> is_lower (to_upper c)"
  using of_char_to_upper [of c] by (simp add: is_upper_def is_lower_def)

lemma to_upper_to_lower: "is_upper c \<Longrightarrow> to_upper (to_lower c) = c"
proof -
  assume u: "is_upper c"
  then have "to_upper (to_lower c) = char_of (of_char (to_lower c) - (32::int))"
    using to_lower_lower [of c] by (simp add: to_upper_def)
  also have "\<dots> = c" using of_char_to_lower [OF u] by simp
  finally show ?thesis .
qed

lemma to_lower_to_upper: "is_lower c \<Longrightarrow> to_lower (to_upper c) = c"
proof -
  assume l: "is_lower c"
  then have "to_lower (to_upper c) = char_of (of_char (to_upper c) + (32::int))"
    using to_upper_upper [of c] by (simp add: to_lower_def)
  also have "\<dots> = c" using of_char_to_upper [OF l] by simp
  finally show ?thesis .
qed

lemma swap_case_twice [simp]: "swap_case (swap_case c) = c"
  using to_lower_lower [of c] to_upper_upper [of c] to_upper_to_lower [of c] to_lower_to_upper [of c]
  by (auto simp add: swap_case_def)

lemma swap_case_eq_iff [simp]: "swap_case a = swap_case b \<longleftrightarrow> a = b"
  by (metis swap_case_twice)

lemma to_lower_swap_case [simp]: "to_lower (swap_case c) = to_lower c"
  using to_lower_lower [of c] to_lower_to_upper [of c] upper_not_lower [of c]
  by (auto simp add: swap_case_def to_lower_def)


lemma is_letter_swap_case [simp]: "is_letter (swap_case c) \<longleftrightarrow> is_letter c"
  using to_lower_lower [of c] to_upper_upper [of c]
  by (auto simp add: swap_case_def is_letter_def)

lemma swap_case_dot [simp]: "swap_case (CHR ''.'') = CHR ''.''"
  by (simp add: swap_case_def is_upper_def is_lower_def)

lemma swap_case_eq_dot [simp]: "swap_case c = CHR ''.'' \<longleftrightarrow> c = CHR ''.''"
  using swap_case_eq_iff [of c "CHR ''.''"] by (simp del: swap_case_eq_iff)

lemma swap_case_no_special [simp]: "swap_case no_special = no_special"
  by (simp add: swap_case_def is_upper_def is_lower_def no_special_def)

lemma officer_swap_case [simp]: "officer (swap_case c) \<longleftrightarrow> officer c"
  by (simp add: officer_def)



lemma to_lower_dot [simp]: "to_lower (CHR ''.'') = CHR ''.''"
  by (simp add: to_lower_def)

lemma swap_entry_simps [simp]:
  "swap_entry (p, s) = (swap_case p, s)" "fst (swap_entry e) = swap_case (fst e)"
  "snd (swap_entry e) = snd e"
  by (simp_all add: swap_entry_def)

lemma swap_entry_eq_iff [simp]: "swap_entry a = swap_entry b \<longleftrightarrow> a = b"
  by (cases a, cases b) simp

lemma has_entry_swap [simp]:
  "has_entry (map swap_entry pcs) (swap_case p) s \<longleftrightarrow> has_entry pcs p s"
proof -
  have "(swap_case p, s) = swap_entry (p, s)" by simp
  then have "(swap_case p, s) \<in> swap_entry ` set pcs \<longleftrightarrow> (p, s) \<in> set pcs"
    by (metis image_iff swap_entry_eq_iff)
  then show ?thesis by (simp add: has_entry_def)
qed

lemma erase_entry_swap [simp]:
  "erase_entry (map swap_entry pcs) (swap_case p, s) = map swap_entry (erase_entry pcs (p, s))"
  unfolding erase_entry_def
  by (induction pcs) auto

lemma insert_entry_swap [simp]:
  "insert_entry (map swap_entry pcs) (swap_case p, s) = map swap_entry (insert_entry pcs (p, s))"
  by (simp add: insert_entry_def)

lemma set_square_swap [simp]:
  "set_square (map swap_entry pcs) (swap_case p, s) t = map swap_entry (set_square pcs (p, s) t)"
  by (induction pcs) auto

lemma dot_entry_swap [simp]:
  "has_entry (map swap_entry pcs) (CHR ''.'') s \<longleftrightarrow> has_entry pcs (CHR ''.'') s"
  "erase_entry (map swap_entry pcs) (CHR ''.'', s) = map swap_entry (erase_entry pcs (CHR ''.'', s))"
  "set_square (map swap_entry pcs) (CHR ''.'', s) t = map swap_entry (set_square pcs (CHR ''.'', s) t)"
  using has_entry_swap [of pcs "CHR ''.''" s] erase_entry_swap [of pcs "CHR ''.''" s]
    set_square_swap [of pcs "CHR ''.''" s t]
  by simp_all

lemma find_entry_swap [simp]:
  "find_entry (map swap_entry pcs) (swap_case k) = map_option swap_entry (find_entry pcs k)"
  unfolding find_entry_def
  by (induction pcs) auto

lemma board_set_swap [simp]:
  "board_set (map swap_case b) sq (swap_case c) = map_sum id (map swap_case) (board_set b sq c)"
  by (simp add: board_set_def map_update)

lemma board_set_swap_dot [simp]:
  "board_set (map swap_case b) sq (CHR ''.'') = map_sum id (map swap_case) (board_set b sq (CHR ''.''))"
  using board_set_swap [of b sq "CHR ''.''"] by simp













lemma swap_colors_simps [simp]:
  "m_board (swap_colors P) = map swap_case (m_board P)"
  "m_to_move (swap_colors P) = swap_to_move (m_to_move P)"
  "m_en_passant (swap_colors P) = m_en_passant P"
  "m_pieces (swap_colors P) = map swap_entry (m_pieces P)"
  "m_prev_moves (swap_colors P) = map swap_move (m_prev_moves P)"
  by (simp_all add: swap_colors_def)


lemma swap_to_move_white [simp]: "swap_to_move c = CHR ''w'' \<longleftrightarrow> c \<noteq> CHR ''w''"
  by (simp add: swap_to_move_def)

subsection \<open>Move generation\<close>










subsection \<open>Attack detection\<close>





subsection \<open>Legal moves\<close>

lemma swap_case_kings [simp]:
  "swap_case (CHR ''K'') = CHR ''k''" "swap_case (CHR ''k'') = CHR ''K''"
  by (simp_all add: swap_case_def is_upper_def is_lower_def to_lower_def to_upper_def char_of_def)

lemma officer_kings [simp]: "officer (CHR ''K'')" "officer (CHR ''k'')"
  by (simp_all add: officer_def is_letter_def is_upper_def is_lower_def to_lower_def char_of_def)









subsection \<open>The material count\<close>





subsection \<open>The evaluation of a leaf\<close>







end
